theory Spec2Isabelle
  imports Main "HOL-Library.Word"
begin

section \<open>Data model\<close>

text \<open>
  \<^verbatim>\<open>NodeType\<close> is \<^verbatim>\<open>uint64_t\<close>; \<^verbatim>\<open>EdgeType\<close> is
  \<^verbatim>\<open>std::pair<NodeType, NodeType>\<close>, so \<open>fst\<close> is the member \<^verbatim>\<open>first\<close> (the first
  integer of the 16-byte record on disk) and \<open>snd\<close> is \<^verbatim>\<open>second\<close>.
\<close>

type_synonym NodeType = "64 word"
type_synonym EdgeType = "NodeType \<times> NodeType"

text \<open>What a successful \<^verbatim>\<open>next\<close> / \<^verbatim>\<open>next_edge\<close> writes through its output pointers.\<close>

record edge_out =
  o_tail :: NodeType
  o_head :: NodeType

text \<open>
  Every way the code stops without returning: the \<^verbatim>\<open>abort()\<close> calls, the exceptions of the
  standard library, and the operations C++ leaves undefined.
\<close>

datatype error =
    Abort_split          \<comment> \<open>"Can not split %lu edges into %lu parts"\<close>
  | Abort_part_bounds    \<comment> \<open>"The partial load part ID is out of bounds"\<close>
  | Abort_open           \<comment> \<open>"Open file '%s' failed."\<close>
  | Abort_read           \<comment> \<open>"Seek error: %s" / "Read file '%s' failed."\<close>
  | Abort_no_file        \<comment> \<open>"No file in directory '%s'"\<close>
  | Throw_path           \<comment> \<open>\<^verbatim>\<open>std::stoul\<close> on a path the pattern does not match\<close>
  | Throw_filesystem     \<comment> \<open>\<^verbatim>\<open>std::filesystem::file_size\<close> of a missing file,
                             \<^verbatim>\<open>directory_iterator\<close> of a missing directory\<close>
  | Undefined_behaviour  \<comment> \<open>shift by 64 or more, division by zero, use of a closed stream,
                             read past the buffer\<close>

subsection \<open>Files and C streams\<close>

text \<open>
  A backing file is a sequence of whole 16-byte records. \<open>openable\<close> says whether
  \<^verbatim>\<open>fopen(..., "rb")\<close> succeeds on it, \<open>faulty\<close> whether reading it sets the stream's error
  indicator. Files are never written during a load.
\<close>

record disk_file =
  recs :: "EdgeType list"
  openable :: bool
  faulty :: bool

text \<open>A \<^verbatim>\<open>FILE*\<close>: the file it was opened on, the byte position, the two indicators, and
  whether \<^verbatim>\<open>fclose\<close> has been called on it.\<close>

record stream =
  s_file :: disk_file
  s_pos :: nat
  s_eof :: bool
  s_err :: bool
  s_closed :: bool

definition BUFFER_SIZE :: nat where
  "BUFFER_SIZE = 1024 * 1024"

definition fopen :: "disk_file option \<Rightarrow> stream option" where
  "fopen e =
     (case e of
        None \<Rightarrow> None
      | Some d \<Rightarrow>
          if openable d
          then Some \<lparr>s_file = d, s_pos = 0, s_eof = False, s_err = False, s_closed = False\<rparr>
          else None)"

definition fclose :: "stream \<Rightarrow> stream" where
  "fclose s = s\<lparr>s_closed := True\<rparr>"

text \<open>\<^verbatim>\<open>fseek(f, off, SEEK_SET)\<close>: the offset is a \<^verbatim>\<open>long\<close>; a \<^verbatim>\<open>size_t\<close> of
  \<open>2^63\<close> or more converts to a negative one, the call fails and the position stays.\<close>

definition fseek_set :: "stream \<Rightarrow> 64 word \<Rightarrow> stream" where
  "fseek_set s off =
     (if 2 ^ 63 \<le> unat off then s else s\<lparr>s_pos := unat off, s_eof := False\<rparr>)"

text \<open>\<^verbatim>\<open>fread(buf, sizeof(EdgeType), cap, f)\<close>: the records read and the stream after.\<close>

definition fread :: "nat \<Rightarrow> stream \<Rightarrow> EdgeType list \<times> stream" where
  "fread cap s =
     (if faulty (s_file s) then ([], s\<lparr>s_err := True\<rparr>)
      else
        let chunk = take cap (drop (s_pos s div 16) (recs (s_file s)))
        in (chunk, s\<lparr>s_pos := s_pos s + 16 * length chunk,
                      s_eof := s_eof s \<or> length chunk < cap\<rparr>))"

text \<open>The records read overwrite the front of the buffer; the rest keeps its old content.\<close>

definition store :: "(nat \<Rightarrow> EdgeType) \<Rightarrow> EdgeType list \<Rightarrow> nat \<Rightarrow> EdgeType" where
  "store buf chunk = (\<lambda>i. if i < length chunk then chunk ! i else buf i)"

section \<open>The synthetic (Kron) format: \<^verbatim>\<open>ll_load_bin.h\<close>\<close>

text \<open>A directory of the synthetic format: \<^verbatim>\<open>block-%02lu.bin\<close> by file index.\<close>

type_synonym kron_dir = "nat \<Rightarrow> disk_file option"

text \<open>
  The environment of a run: the directories by path, and the result of matching
  \<^verbatim>\<open>KRON_FILE_FORMAT_REGEX\<close> against a path and converting both groups with
  \<^verbatim>\<open>std::stoul\<close> (\<open>None\<close> when the conversion throws).
\<close>

record world =
  kron_match :: "string \<Rightarrow> (64 word \<times> 64 word) option"
  dir_of :: "string \<Rightarrow> kron_dir"

subsection \<open>\<^verbatim>\<open>kron_reader\<close>\<close>

record kron_reader =
  kr_path :: string
  kr_buffer :: "nat \<Rightarrow> EdgeType"
  kr_cur :: "64 word"
  kr_begin :: "64 word"
  kr_len :: "64 word"
  kr_file :: "stream option"
  kr_cur_file_id :: "64 word"
  kr_total_nodes :: "64 word"
  kr_total_edges :: "64 word"
  kr_edges_per_file :: "64 word"

definition kron_reader_ctor :: "world \<Rightarrow> string \<Rightarrow> error + kron_reader" where
  "kron_reader_ctor w path =
     (case kron_match w path of
        None \<Rightarrow> Inl Throw_path
      | Some (n, m) \<Rightarrow>
          if 64 \<le> n then Inl Undefined_behaviour
          else
            (case dir_of w path 0 of
               None \<Rightarrow> Inl Throw_filesystem
             | Some d \<Rightarrow>
                 Inr \<lparr>kr_path = path, kr_buffer = (\<lambda>_. (0, 0)), kr_cur = 0, kr_begin = 0,
                      kr_len = 0, kr_file = None, kr_cur_file_id = 0,
                      kr_total_nodes = push_bit (unat n) 1,
                      kr_total_edges = push_bit (unat n) 1 * m,
                      kr_edges_per_file = of_nat (length (recs d))\<rparr>))"

text \<open>Lines 201-212 of \<^verbatim>\<open>seek\<close>: the stream to read from and the file index it belongs to.
  A stream that is replaced is closed and never used again, so it is simply dropped.\<close>

definition seek_open :: "world \<Rightarrow> kron_reader \<Rightarrow> 64 word \<Rightarrow> error + (stream \<times> 64 word)" where
  "seek_open w r file_id =
     (let reopen =
            (case fopen (dir_of w (kr_path r) (unat file_id)) of
               None \<Rightarrow> Inl Abort_open
             | Some s \<Rightarrow> Inr (s, file_id))
      in case kr_file r of
           None \<Rightarrow> reopen
         | Some s \<Rightarrow> if file_id \<noteq> kr_cur_file_id r then reopen else Inr (s, kr_cur_file_id r))"

definition seek :: "world \<Rightarrow> 64 word \<Rightarrow> kron_reader \<Rightarrow> error + (bool \<times> kron_reader)" where
  "seek w n r =
     (if kr_total_edges r \<le> n then Inr (False, r)
      else if kr_begin r \<le> n \<and> n < kr_begin r + kr_len r
      then Inr (True, r\<lparr>kr_cur := n - kr_begin r\<rparr>)
      else if kr_edges_per_file r = 0 then Inl Undefined_behaviour
      else
        let file_id = n div kr_edges_per_file r;
            file_off = n mod kr_edges_per_file r
        in case seek_open w r file_id of
             Inl e \<Rightarrow> Inl e
           | Inr (s, fid) \<Rightarrow>
               let (chunk, s') = fread BUFFER_SIZE (fseek_set s (file_off * 16))
               in if s_err s' then Inl Abort_read
                  else Inr (True, r\<lparr>kr_buffer := store (kr_buffer r) chunk,
                                     kr_cur := 0, kr_begin := n,
                                     kr_len := of_nat (length chunk),
                                     kr_file := Some s', kr_cur_file_id := fid\<rparr>))"

definition next_rec :: "world \<Rightarrow> kron_reader \<Rightarrow> error + (edge_out option \<times> kron_reader)" where
  "next_rec w r =
     (case (if kr_cur r = kr_len r then seek w (kr_begin r + kr_len r) r else Inr (True, r)) of
        Inl e \<Rightarrow> Inl e
      | Inr (ret, r') \<Rightarrow>
          if \<not> ret then Inr (None, r')
          else if BUFFER_SIZE \<le> unat (kr_cur r') then Inl Undefined_behaviour
          else Inr (Some \<lparr>o_tail = snd (kr_buffer r' (unat (kr_cur r'))),
                          o_head = fst (kr_buffer r' (unat (kr_cur r')))\<rparr>,
                    r'\<lparr>kr_cur := kr_cur r' + 1\<rparr>))"

subsection \<open>\<^verbatim>\<open>bin_loader\<close>, the adapter over a \<^verbatim>\<open>kron_reader\<close>\<close>

text \<open>The adapter holds a pointer to the front-end's reader: its operations take and
  return the pair of the adapter's own fields and the reader.\<close>

record bin_loader =
  bl_begin_edge :: "64 word"
  bl_needed_edges :: "64 word"
  bl_loaded_edges :: "64 word"

definition rewind :: "world \<Rightarrow> bin_loader \<times> kron_reader \<Rightarrow> error + (bin_loader \<times> kron_reader)" where
  "rewind w ar =
     (case seek w (bl_begin_edge (fst ar)) (snd ar) of
        Inl e \<Rightarrow> Inl e
      | Inr (_, r') \<Rightarrow> Inr ((fst ar)\<lparr>bl_loaded_edges := 0\<rparr>, r'))"

definition bin_loader_ctor ::
  "world \<Rightarrow> kron_reader \<Rightarrow> 64 word \<Rightarrow> 64 word \<Rightarrow> error + (bin_loader \<times> kron_reader)" where
  "bin_loader_ctor w reader needed begin_edge =
     rewind w (\<lparr>bl_begin_edge = begin_edge, bl_needed_edges = needed, bl_loaded_edges = 0\<rparr>,
               reader)"

definition next_edge ::
  "world \<Rightarrow> bin_loader \<times> kron_reader \<Rightarrow> error + (edge_out option \<times> bin_loader \<times> kron_reader)" where
  "next_edge w ar =
     (if bl_loaded_edges (fst ar) = bl_needed_edges (fst ar) then Inr (None, ar)
      else
        (case next_rec w (snd ar) of
           Inl e \<Rightarrow> Inl e
         | Inr (res, r') \<Rightarrow>
             Inr (res,
                  (fst ar)\<lparr>bl_loaded_edges :=
                             bl_loaded_edges (fst ar) + (if res = None then 0 else 1)\<rparr>,
                  r')))"

text \<open>\<^verbatim>\<open>stat\<close>: the return value, \<^verbatim>\<open>*o_nodes\<close>, \<^verbatim>\<open>*o_edges\<close>, and the state after.\<close>

definition stat ::
  "bin_loader \<times> kron_reader \<Rightarrow> (bool \<times> 64 word \<times> 64 word) \<times> (bin_loader \<times> kron_reader)" where
  "stat ar = ((True, kr_total_nodes (snd ar), bl_needed_edges (fst ar)), ar)"

subsection \<open>\<^verbatim>\<open>ll_loader_bin\<close>, the front-end\<close>

text \<open>
  Modelled from the spec: the configuration object \<^verbatim>\<open>ll_loader_config\<close> is declared in
  \<^verbatim>\<open>ll_load_utils.h\<close>, which is not among the sources. Only the two fields the spec names are
  kept: \<^verbatim>\<open>partial_load_num_parts\<close> (0 = no sharding) and \<^verbatim>\<open>partial_load_part\<close> (1-based),
  both unsigned 64-bit as the \<^verbatim>\<open>%lu\<close> of the error message prints them.
\<close>

record ll_loader_config =
  lc_partial_load_num_parts :: "64 word"
  lc_partial_load_part :: "64 word"

record ll_loader_bin =
  fe_reader :: "kron_reader option"
  fe_path :: string

text \<open>Lines 37-54 of \<^verbatim>\<open>init\<close>: the pair \<^verbatim>\<open>{needed_edge, begin_edge}\<close> from the reader's
  \<^verbatim>\<open>total_edges()\<close> and the configuration (\<open>None\<close> is \<^verbatim>\<open>nullptr\<close>).\<close>

definition init_range ::
  "64 word \<Rightarrow> ll_loader_config option \<Rightarrow> error + (64 word \<times> 64 word)" where
  "init_range total_edges config =
     (case config of
        None \<Rightarrow> Inr (total_edges, 0)
      | Some c \<Rightarrow>
          if 0 < lc_partial_load_num_parts c then
            let nparts = lc_partial_load_num_parts c in
            if total_edges mod nparts \<noteq> 0 then Inl Abort_split
            else if lc_partial_load_part c \<le> 0 \<or> lc_partial_load_part c > nparts
            then Inl Abort_part_bounds
            else Inr (total_edges div nparts, (lc_partial_load_part c - 1) * (total_edges div nparts))
          else Inr (total_edges, 0))"

text \<open>Lines 32-35 of \<^verbatim>\<open>init\<close>: the cached reader is kept when the path is the same.\<close>

definition init_reader :: "world \<Rightarrow> ll_loader_bin \<Rightarrow> string \<Rightarrow> error + kron_reader" where
  "init_reader w fe file =
     (case fe_reader fe of
        None \<Rightarrow> kron_reader_ctor w file
      | Some r \<Rightarrow> if fe_path fe \<noteq> file then kron_reader_ctor w file else Inr r)"

definition init ::
  "world \<Rightarrow> ll_loader_bin \<Rightarrow> string \<Rightarrow> ll_loader_config option
     \<Rightarrow> error + ((64 word \<times> 64 word) \<times> kron_reader)" where
  "init w fe file config =
     (case init_reader w fe file of
        Inl e \<Rightarrow> Inl e
      | Inr r \<Rightarrow>
          (case init_range (kr_total_edges r) config of
             Inl e \<Rightarrow> Inl e
           | Inr p \<Rightarrow> Inr (p, r)))"

text \<open>\<^verbatim>\<open>create_data_source\<close>: the adapter returned, and the front-end after the call.\<close>

definition create_data_source ::
  "world \<Rightarrow> ll_loader_bin \<Rightarrow> string \<Rightarrow> error + ((bin_loader \<times> kron_reader) \<times> ll_loader_bin)" where
  "create_data_source w fe file =
     (case init w fe file None of
        Inl e \<Rightarrow> Inl e
      | Inr ((needed_edge, begin_edge), r) \<Rightarrow>
          (case bin_loader_ctor w r needed_edge begin_edge of
             Inl e \<Rightarrow> Inl e
           | Inr (a, r') \<Rightarrow> Inr ((a, r'), \<lparr>fe_reader = Some r', fe_path = file\<rparr>)))"

section \<open>The plain directory format: \<^verbatim>\<open>bin_loader<NodeType>\<close> over a directory\<close>

text \<open>
  The environment of the plain format: for each path the entries a
  \<^verbatim>\<open>directory_iterator\<close> yields, in its order (\<open>None\<close> when constructing it throws).
  \<open>pl_iter\<close> is the iterator: the entries from the current one on, \<open>[]\<close> at the end.
\<close>

type_synonym plain_world = "string \<Rightarrow> disk_file list option"

record plain_loader =
  pl_loaded_edges :: "64 word"
  pl_buffer :: "nat \<Rightarrow> EdgeType"
  pl_cur :: "64 word"
  pl_count :: "64 word"
  pl_dir :: string
  pl_iter :: "disk_file list"
  pl_file :: "stream option"

definition open_file :: "disk_file \<Rightarrow> plain_loader \<Rightarrow> error + plain_loader" where
  "open_file d l =
     (case fopen (Some d) of
        None \<Rightarrow> Inl Abort_open
      | Some s \<Rightarrow> Inr (l\<lparr>pl_file := Some s\<rparr>))"

definition next_file :: "plain_loader \<Rightarrow> error + (bool \<times> plain_loader)" where
  "next_file l =
     (case pl_file l of
        None \<Rightarrow> Inl Undefined_behaviour
      | Some s \<Rightarrow>
          if s_closed s then Inl Undefined_behaviour
          else
            (case tl (pl_iter l) of
               [] \<Rightarrow> Inr (False, l\<lparr>pl_file := Some (fclose s), pl_iter := []\<rparr>)
             | d # ds \<Rightarrow>
                 (case open_file d (l\<lparr>pl_file := Some (fclose s), pl_iter := d # ds\<rparr>) of
                    Inl e \<Rightarrow> Inl e
                  | Inr l' \<Rightarrow> Inr (True, l'))))"

text \<open>\<^verbatim>\<open>_count = fread(_buffer, sizeof(EdgeType), BUFFER_SIZE, _file)\<close> on the loader.\<close>

definition fread_buffer :: "plain_loader \<Rightarrow> error + plain_loader" where
  "fread_buffer l =
     (case pl_file l of
        None \<Rightarrow> Inl Undefined_behaviour
      | Some s \<Rightarrow>
          if s_closed s then Inl Undefined_behaviour
          else
            let (chunk, s') = fread BUFFER_SIZE s
            in Inr (l\<lparr>pl_buffer := store (pl_buffer l) chunk,
                       pl_count := of_nat (length chunk),
                       pl_file := Some s'\<rparr>))"

text \<open>
  One pass through the body of the \<^verbatim>\<open>do ... while (_count == 0)\<close> of
  \<^verbatim>\<open>read_buffer\<close>: \<open>Some b\<close> when \<^verbatim>\<open>read_buffer\<close> returns \<open>b\<close> after it, \<open>None\<close> when
  the body runs again.
\<close>

definition read_buffer_body :: "plain_loader \<Rightarrow> error + (bool option \<times> plain_loader)" where
  "read_buffer_body l =
     (case fread_buffer l of
        Inl e \<Rightarrow> Inl e
      | Inr l1 \<Rightarrow>
          (case pl_file l1 of
             None \<Rightarrow> Inl Undefined_behaviour
           | Some s1 \<Rightarrow>
               if s_err s1 then Inl Abort_read
               else
                 (case (if s_eof s1 then next_file l1 else Inr (True, l1)) of
                    Inl e \<Rightarrow> Inl e
                  | Inr (ok, l2) \<Rightarrow>
                      if \<not> ok then Inr (Some False, l2)
                      else
                        (case fread_buffer l2 of
                           Inl e \<Rightarrow> Inl e
                         | Inr l3 \<Rightarrow>
                             if pl_count l3 = 0 then Inr (None, l3)
                             else Inr (Some True, l3\<lparr>pl_cur := 0\<rparr>)))))"

text \<open>What decreases from one pass of the loop to the next: the entries left, then
  whether the open stream has reached its end.\<close>

definition read_buffer_measure :: "plain_loader \<Rightarrow> nat" where
  "read_buffer_measure l =
     2 * length (pl_iter l)
     + (case pl_file l of None \<Rightarrow> 1 | Some s \<Rightarrow> if s_eof s then 0 else 1)"

text \<open>The measure decreases whenever the body asks for another pass, so the loop of
  \<^verbatim>\<open>read_buffer\<close> always ends.\<close>

lemma fread_buffer_iter: "fread_buffer l = Inr l' \<Longrightarrow> pl_iter l' = pl_iter l"
  by (auto simp: fread_buffer_def Let_def split: option.splits if_splits prod.splits)

lemma fread_buffer_eof:
  "fread_buffer l = Inr l' \<Longrightarrow> pl_file l = Some s \<Longrightarrow> s_eof s \<Longrightarrow> \<exists>s'. pl_file l' = Some s' \<and> s_eof s'"
  by (auto simp: fread_buffer_def fread_def Let_def split: option.splits if_splits prod.splits)

lemma fread_buffer_empty_eof:
  "fread_buffer l = Inr l' \<Longrightarrow> pl_count l' = 0 \<Longrightarrow> pl_file l = Some s \<Longrightarrow> \<not> faulty (s_file s)
   \<Longrightarrow> \<exists>s'. pl_file l' = Some s' \<and> s_eof s'"
  apply (auto simp: fread_buffer_def fread_def Let_def BUFFER_SIZE_def split: option.splits if_splits prod.splits)
  done

lemma fread_buffer_faulty:
  "fread_buffer l = Inr l' \<Longrightarrow> pl_file l = Some s \<Longrightarrow> pl_file l' = Some s' \<Longrightarrow> \<not> s_err s' \<Longrightarrow> \<not> faulty (s_file s') \<and> s_file s' = s_file s"
  by (auto simp: fread_buffer_def fread_def Let_def split: option.splits if_splits prod.splits)

lemma next_file_iter:
  "next_file l = Inr (True, l') \<Longrightarrow> length (pl_iter l') < length (pl_iter l)"
  by (cases "pl_iter l") (auto simp: next_file_def open_file_def split: option.splits if_splits list.splits sum.splits)

lemma read_buffer_body_decreases:
  assumes "read_buffer_body l = Inr (None, l')"
  shows "read_buffer_measure l' < read_buffer_measure l"
proof -
  from assms obtain l1 s1 ok l2 where
    f1: "fread_buffer l = Inr l1" and s1: "pl_file l1 = Some s1" and ne: "\<not> s_err s1"
    and nf: "(if s_eof s1 then next_file l1 else Inr (True, l1)) = Inr (ok, l2)"
    and ok: "ok" and f2: "fread_buffer l2 = Inr l'" and c: "pl_count l' = 0"
    by (auto simp: read_buffer_body_def split: sum.splits option.splits if_splits prod.splits)
  show ?thesis
  proof (cases "s_eof s1")
    case True
    with nf ok have "next_file l1 = Inr (True, l2)" by simp
    then have "length (pl_iter l2) < length (pl_iter l1)" by (rule next_file_iter)
    with fread_buffer_iter [OF f1] fread_buffer_iter [OF f2]
    have "length (pl_iter l') < length (pl_iter l)" by simp
    then show ?thesis
      by (auto simp: read_buffer_measure_def split: option.splits)
  next
    case False
    with nf have l2: "l2 = l1" by simp
    from f1 obtain s where s: "pl_file l = Some s"
      by (auto simp: fread_buffer_def split: option.splits)
    have nfault: "\<not> faulty (s_file s1)"
      using fread_buffer_faulty [OF f1 s s1 ne] by blast
    from fread_buffer_empty_eof [OF f2 [unfolded l2] c s1 nfault]
    obtain s' where s': "pl_file l' = Some s'" "s_eof s'" by blast
    have "\<not> s_eof s" using f1 s s1 False
      by (auto simp: fread_buffer_def fread_def Let_def split: option.splits if_splits prod.splits)
    with s s' fread_buffer_iter [OF f1] fread_buffer_iter [OF f2] l2
    show ?thesis by (simp add: read_buffer_measure_def)
  qed
qed

function read_buffer :: "plain_loader \<Rightarrow> error + (bool \<times> plain_loader)" where
  "read_buffer l =
     (case read_buffer_body l of
        Inl e \<Rightarrow> Inl e
      | Inr (Some b, l') \<Rightarrow> Inr (b, l')
      | Inr (None, l') \<Rightarrow> read_buffer l')"
  by pat_completeness auto
termination
  by (relation "measure read_buffer_measure") (auto dest: read_buffer_body_decreases)


definition plain_next_edge :: "plain_loader \<Rightarrow> error + (edge_out option \<times> plain_loader)" where
  "plain_next_edge l =
     (case (if pl_cur l = pl_count l then read_buffer l else Inr (True, l)) of
        Inl e \<Rightarrow> Inl e
      | Inr (ok, l') \<Rightarrow>
          if \<not> ok then Inr (None, l')
          else if BUFFER_SIZE \<le> unat (pl_cur l') then Inl Undefined_behaviour
          else Inr (Some \<lparr>o_tail = snd (pl_buffer l' (unat (pl_cur l'))),
                          o_head = fst (pl_buffer l' (unat (pl_cur l')))\<rparr>,
                    l'\<lparr>pl_cur := pl_cur l' + 1,
                       pl_loaded_edges := pl_loaded_edges l' + 1\<rparr>))"

definition plain_rewind :: "plain_world \<Rightarrow> plain_loader \<Rightarrow> error + plain_loader" where
  "plain_rewind pw l =
     (case (case pl_file l of
              None \<Rightarrow> Inr l
            | Some s \<Rightarrow>
                if s_closed s then Inl Undefined_behaviour
                else Inr (l\<lparr>pl_file := Some (fclose s)\<rparr>)) of
        Inl e \<Rightarrow> Inl e
      | Inr l1 \<Rightarrow>
          (case pw (pl_dir l1) of
             None \<Rightarrow> Inl Throw_filesystem
           | Some [] \<Rightarrow> Inl Abort_no_file
           | Some (d # ds) \<Rightarrow>
               (case open_file d (l1\<lparr>pl_iter := d # ds\<rparr>) of
                  Inl e \<Rightarrow> Inl e
                | Inr l2 \<Rightarrow> Inr (l2\<lparr>pl_cur := 0, pl_count := 0, pl_loaded_edges := 0\<rparr>))))"

text \<open>The constructor leaves \<^verbatim>\<open>_loaded_edges\<close>, \<^verbatim>\<open>_cur\<close>, \<^verbatim>\<open>_count\<close> and \<^verbatim>\<open>_iter\<close> to
  \<^verbatim>\<open>rewind\<close>, which sets them before anything reads them.\<close>

definition plain_ctor :: "plain_world \<Rightarrow> string \<Rightarrow> error + plain_loader" where
  "plain_ctor pw file_name =
     plain_rewind pw
       \<lparr>pl_loaded_edges = 0, pl_buffer = (\<lambda>_. (0, 0)), pl_cur = 0, pl_count = 0,
        pl_dir = file_name, pl_iter = [], pl_file = None\<rparr>"

text \<open>\<^verbatim>\<open>stat\<close> of the plain format writes neither output and returns \<open>false\<close>.\<close>

definition plain_stat :: "plain_loader \<Rightarrow> bool \<times> plain_loader" where
  "plain_stat l = (False, l)"

section \<open>Specification vocabulary\<close>

text \<open>A shard request as the configuration object carries it.\<close>

definition shard :: "64 word \<Rightarrow> 64 word \<Rightarrow> ll_loader_config option" where
  "shard num_parts part_index =
     Some \<lparr>lc_partial_load_num_parts = num_parts, lc_partial_load_part = part_index\<rparr>"

text \<open>The set of logical edge indices \<open>[begin_edge, begin_edge + needed_edge)\<close> of a planning
  result; empty when planning failed.\<close>

definition edge_range :: "error + (64 word \<times> 64 word) \<Rightarrow> nat set" where
  "edge_range res =
     (case res of
        Inl _ \<Rightarrow> {}
      | Inr (needed_edge, begin_edge) \<Rightarrow> {unat begin_edge ..< unat begin_edge + unat needed_edge})"


text \<open>Repeated calls: the results of \<open>n\<close> calls in order, and the state after the last.\<close>

fun next_recs :: "world \<Rightarrow> nat \<Rightarrow> kron_reader \<Rightarrow> error + (edge_out option list \<times> kron_reader)" where
  "next_recs w 0 r = Inr ([], r)"
| "next_recs w (Suc n) r =
     (case next_rec w r of
        Inl e \<Rightarrow> Inl e
      | Inr (x, r') \<Rightarrow>
          (case next_recs w n r' of
             Inl e \<Rightarrow> Inl e
           | Inr (xs, r'') \<Rightarrow> Inr (x # xs, r'')))"

fun next_edges ::
  "world \<Rightarrow> nat \<Rightarrow> bin_loader \<times> kron_reader
     \<Rightarrow> error + (edge_out option list \<times> bin_loader \<times> kron_reader)" where
  "next_edges w 0 ar = Inr ([], ar)"
| "next_edges w (Suc n) ar =
     (case next_edge w ar of
        Inl e \<Rightarrow> Inl e
      | Inr (x, ar') \<Rightarrow>
          (case next_edges w n ar' of
             Inl e \<Rightarrow> Inl e
           | Inr (xs, ar'') \<Rightarrow> Inr (x # xs, ar'')))"

fun plain_next_edges ::
  "nat \<Rightarrow> plain_loader \<Rightarrow> error + (edge_out option list \<times> plain_loader)" where
  "plain_next_edges 0 l = Inr ([], l)"
| "plain_next_edges (Suc n) l =
     (case plain_next_edge l of
        Inl e \<Rightarrow> Inl e
      | Inr (x, l') \<Rightarrow>
          (case plain_next_edges n l' of
             Inl e \<Rightarrow> Inl e
           | Inr (xs, l'') \<Rightarrow> Inr (x # xs, l'')))"

text \<open>Replaying: \<open>n\<close> times \<^verbatim>\<open>rewind()\<close> followed by \<^verbatim>\<open>needed_edges\<close> calls of
  \<^verbatim>\<open>next_edge()\<close>; the result lists of the passes in order.\<close>

fun replays ::
  "world \<Rightarrow> nat \<Rightarrow> bin_loader \<times> kron_reader
     \<Rightarrow> error + (edge_out option list list \<times> bin_loader \<times> kron_reader)" where
  "replays w 0 ar = Inr ([], ar)"
| "replays w (Suc n) ar =
     (case rewind w ar of
        Inl e \<Rightarrow> Inl e
      | Inr ar1 \<Rightarrow>
          (case next_edges w (unat (bl_needed_edges (fst ar1))) ar1 of
             Inl e \<Rightarrow> Inl e
           | Inr (xs, ar2) \<Rightarrow>
               (case replays w n ar2 of
                  Inl e \<Rightarrow> Inl e
                | Inr (xss, ar3) \<Rightarrow> Inr (xs # xss, ar3))))"


text \<open>The same for the plain loader, whose passes have a length \<open>k\<close> chosen by the caller.\<close>

fun plain_replays ::
  "plain_world \<Rightarrow> nat \<Rightarrow> nat \<Rightarrow> plain_loader
     \<Rightarrow> error + (edge_out option list list \<times> plain_loader)" where
  "plain_replays pw k 0 l = Inr ([], l)"
| "plain_replays pw k (Suc n) l =
     (case plain_rewind pw l of
        Inl e \<Rightarrow> Inl e
      | Inr l1 \<Rightarrow>
          (case plain_next_edges k l1 of
             Inl e \<Rightarrow> Inl e
           | Inr (xs, l2) \<Rightarrow>
               (case plain_replays pw k n l2 of
                  Inl e \<Rightarrow> Inl e
                | Inr (xss, l3) \<Rightarrow> Inr (xs # xss, l3))))"


subsection \<open>The logical edge stream and a well-formed store\<close>

text \<open>
  Record \<open>n\<close> of the logical stream of a reader is record \<open>n mod edges_per_file\<close> of file
  \<open>n div edges_per_file\<close>; \<open>edge_at\<close> is the edge the loader emits for it, if the record
  exists. A store is uniform when every file that holds a record below \<open>total_edges\<close> can be
  opened and read, has at most \<open>edges_per_file\<close> records and holds all of its records below
  \<open>total_edges\<close>; the sizes are such that byte offsets fit a \<^verbatim>\<open>long\<close>. \<open>reader_ok\<close> is the
  invariant of a reader over a uniform store: the open stream belongs to the file
  \<^verbatim>\<open>_cur_file_id\<close> names, and the first \<^verbatim>\<open>_len\<close> buffer slots hold the records
  \<^verbatim>\<open>_begin\<close>, \<^verbatim>\<open>_begin + 1\<close>, ... of the stream.
\<close>

definition disk_record :: "world \<Rightarrow> kron_reader \<Rightarrow> nat \<Rightarrow> EdgeType option" where
  "disk_record w r n =
     (case dir_of w (kr_path r) (n div unat (kr_edges_per_file r)) of
        None \<Rightarrow> None
      | Some d \<Rightarrow>
          if n mod unat (kr_edges_per_file r) < length (recs d)
          then Some (recs d ! (n mod unat (kr_edges_per_file r)))
          else None)"

definition swapped :: "EdgeType \<Rightarrow> edge_out" where
  "swapped e = \<lparr>o_tail = snd e, o_head = fst e\<rparr>"

definition edge_at :: "world \<Rightarrow> kron_reader \<Rightarrow> nat \<Rightarrow> edge_out option" where
  "edge_at w r n = map_option swapped (disk_record w r n)"

definition file_ok :: "nat \<Rightarrow> nat \<Rightarrow> disk_file option \<Rightarrow> bool" where
  "file_ok epf wanted e =
     (case e of
        None \<Rightarrow> False
      | Some d \<Rightarrow> openable d \<and> \<not> faulty d \<and> wanted \<le> length (recs d) \<and> length (recs d) \<le> epf)"

definition uniform_store :: "world \<Rightarrow> kron_reader \<Rightarrow> bool" where
  "uniform_store w r \<longleftrightarrow>
     0 < unat (kr_edges_per_file r)
     \<and> unat (kr_edges_per_file r) < 2 ^ 59
     \<and> unat (kr_total_edges r) < 2 ^ 63
     \<and> (\<forall>f. f * unat (kr_edges_per_file r) < unat (kr_total_edges r) \<longrightarrow>
            file_ok (unat (kr_edges_per_file r))
              (min (unat (kr_edges_per_file r))
                   (unat (kr_total_edges r) - f * unat (kr_edges_per_file r)))
              (dir_of w (kr_path r) f))"

definition stream_ok :: "world \<Rightarrow> kron_reader \<Rightarrow> bool" where
  "stream_ok w r =
     (case kr_file r of
        None \<Rightarrow> True
      | Some s \<Rightarrow>
          \<not> s_err s \<and> dir_of w (kr_path r) (unat (kr_cur_file_id r)) = Some (s_file s))"

definition reader_ok :: "world \<Rightarrow> kron_reader \<Rightarrow> bool" where
  "reader_ok w r \<longleftrightarrow>
     uniform_store w r
     \<and> stream_ok w r
     \<and> kr_cur r \<le> kr_len r
     \<and> unat (kr_len r) \<le> BUFFER_SIZE
     \<and> unat (kr_begin r) + unat (kr_len r) < 2 ^ 64
     \<and> (\<forall>i < unat (kr_len r). disk_record w r (unat (kr_begin r) + i) = Some (kr_buffer r i))"

definition kr_params :: "kron_reader \<Rightarrow> string \<times> 64 word \<times> 64 word \<times> 64 word" where
  "kr_params r = (kr_path r, kr_total_nodes r, kr_total_edges r, kr_edges_per_file r)"

definition kr_pos :: "kron_reader \<Rightarrow> nat" where
  "kr_pos r = unat (kr_begin r) + unat (kr_cur r)"


subsection \<open>States of the plain loader\<close>

text \<open>
  Two states of the plain loader that differ only in buffer slots at or beyond
  \<^verbatim>\<open>_count\<close>, which hold records of earlier reads; and the states in which the cursor is
  inside the filled part of the buffer and the stream has not been closed.
\<close>

definition same_but_stale :: "plain_loader \<Rightarrow> plain_loader \<Rightarrow> bool" where
  "same_but_stale l l' \<longleftrightarrow>
     l' = l\<lparr>pl_buffer := pl_buffer l'\<rparr>
     \<and> (\<forall>i < unat (pl_count l). pl_buffer l' i = pl_buffer l i)"

definition plain_live :: "plain_loader \<Rightarrow> bool" where
  "plain_live l \<longleftrightarrow>
     pl_cur l \<le> pl_count l
     \<and> unat (pl_count l) \<le> BUFFER_SIZE
     \<and> (case pl_file l of None \<Rightarrow> False | Some s \<Rightarrow> \<not> s_closed s)"


subsection \<open>Concrete inputs\<close>

definition plain_file :: "EdgeType list \<Rightarrow> disk_file" where
  "plain_file rs = \<lparr>recs = rs, openable = True, faulty = False\<rparr>"

definition kron_world :: "64 word \<Rightarrow> 64 word \<Rightarrow> kron_dir \<Rightarrow> world" where
  "kron_world n m d = \<lparr>kron_match = (\<lambda>_. Some (n, m)), dir_of = (\<lambda>_. d)\<rparr>"

definition fresh :: ll_loader_bin where
  "fresh = \<lparr>fe_reader = None, fe_path = []\<rparr>"

definition locked_file :: "EdgeType list \<Rightarrow> disk_file" where
  "locked_file rs = \<lparr>recs = rs, openable = False, faulty = False\<rparr>"


text \<open>A store of two files of four records for \<^verbatim>\<open>Kron2-2\<close> (4 nodes, 8 edges), and the
  reader its constructor builds.\<close>

definition demo_dir :: kron_dir where
  "demo_dir f =
     (if f = 0 then Some (plain_file [(10, 11), (12, 13), (14, 15), (16, 17)])
      else if f = 1 then Some (plain_file [(18, 19), (20, 21), (22, 23), (24, 25)])
      else None)"

definition demo_world :: world where
  "demo_world = kron_world 2 2 demo_dir"

definition demo_reader :: kron_reader where
  "demo_reader =
     \<lparr>kr_path = ''Kron2-2'', kr_buffer = (\<lambda>_. (0, 0)), kr_cur = 0, kr_begin = 0, kr_len = 0,
      kr_file = None, kr_cur_file_id = 0, kr_total_nodes = 4, kr_total_edges = 8,
      kr_edges_per_file = 4\<rparr>"


text \<open>A store for \<^verbatim>\<open>Kron2-2\<close> whose only file holds ten records, two more than
  \<open>total_edges\<close>; the reader its constructor builds, and that reader after \<^verbatim>\<open>seek(0)\<close>.\<close>

definition over_dir :: kron_dir where
  "over_dir f =
     (if f = 0
      then Some (plain_file [(10, 11), (12, 13), (14, 15), (16, 17), (18, 19),
                             (20, 21), (22, 23), (24, 25), (26, 27), (28, 29)])
      else None)"

definition over_world :: world where
  "over_world = kron_world 2 2 over_dir"

definition over_fresh :: kron_reader where
  "over_fresh =
     \<lparr>kr_path = ''Kron2-2'', kr_buffer = (\<lambda>_. (0, 0)), kr_cur = 0, kr_begin = 0, kr_len = 0,
      kr_file = None, kr_cur_file_id = 0, kr_total_nodes = 4, kr_total_edges = 8,
      kr_edges_per_file = 10\<rparr>"

definition over_reader :: kron_reader where
  "over_reader =
     over_fresh
       \<lparr>kr_buffer :=
          store (\<lambda>_. (0, 0))
            [(10, 11), (12, 13), (14, 15), (16, 17), (18, 19),
             (20, 21), (22, 23), (24, 25), (26, 27), (28, 29)],
        kr_len := 10,
        kr_file :=
          Some \<lparr>s_file = plain_file [(10, 11), (12, 13), (14, 15), (16, 17), (18, 19),
                                     (20, 21), (22, 23), (24, 25), (26, 27), (28, 29)],
                s_pos = 160, s_eof = True, s_err = False, s_closed = False\<rparr>\<rparr>"


text \<open>A plain directory of two files with 3 and 2 records.\<close>

definition two_files :: plain_world where
  "two_files = (\<lambda>_. Some [plain_file [(1, 2), (3, 4), (5, 6)], plain_file [(7, 8), (9, 10)]])"


text \<open>A plain directory of a single file with 3 records.\<close>

definition one_file :: plain_world where
  "one_file = (\<lambda>_. Some [plain_file [(1, 2), (3, 4), (5, 6)]])"

section \<open>Properties\<close>

subsection \<open>Partition planning\<close>

lemma init_range_valid:
  "0 < nparts \<Longrightarrow> total_edges mod nparts = 0 \<Longrightarrow> 1 \<le> p \<Longrightarrow> p \<le> nparts \<Longrightarrow>
   init_range total_edges (shard nparts p)
     = Inr (total_edges div nparts, (p - 1) * (total_edges div nparts))"
  by (auto simp: init_range_def shard_def Let_def word_le_nat_alt word_less_nat_alt)

lemma unat_begin_edge:
  fixes p nparts t :: "64 word"
  assumes "0 < nparts" "1 \<le> p" "p \<le> nparts"
  shows "unat ((p - 1) * (t div nparts)) = (unat p - 1) * (unat t div unat nparts)"
proof -
  have p1: "unat (p - 1) = unat p - 1"
    using assms(2) by (simp add: unat_sub)
  have "(unat p - 1) * (unat t div unat nparts) \<le> unat nparts * (unat t div unat nparts)"
  proof (rule mult_le_mono1)
    show "unat p - 1 \<le> unat nparts" using assms(3) by (simp add: word_le_nat_alt)
  qed
  also have "\<dots> \<le> unat t" by simp
  also have "\<dots> < 2 ^ LENGTH(64)" by (rule unsigned_less)
  finally have "unat (p - 1) * unat (t div nparts) < 2 ^ LENGTH(64)"
    by (simp only: p1 unat_div)
  then have "unat ((p - 1) * (t div nparts)) = unat (p - 1) * unat (t div nparts)"
    by (rule unat_mult_lem [THEN iffD1])
  then show ?thesis by (simp add: p1 unat_div)
qed

text \<open>Every range \<^verbatim>\<open>init\<close> hands to an adapter lies inside \<open>[0, total_edges)\<close>, which is
  the condition the adapter's properties below are stated under.\<close>

lemma init_range_fit:
  assumes "init_range total_edges config = Inr (needed_edge, begin_edge)"
  shows "unat begin_edge + unat needed_edge \<le> unat total_edges"
proof (cases config)
  case None
  with assms show ?thesis by (simp add: init_range_def)
next
  case (Some c)
  show ?thesis
  proof (cases "0 < lc_partial_load_num_parts c")
    case False
    with assms Some show ?thesis by (simp add: init_range_def)
  next
    case True
    let ?n = "lc_partial_load_num_parts c" and ?p = "lc_partial_load_part c"
    from assms Some True have v: "\<not> (?p \<le> 0 \<or> ?n < ?p)"
      and ne: "needed_edge = total_edges div ?n"
      and be: "begin_edge = (?p - 1) * (total_edges div ?n)"
      by (auto simp: init_range_def Let_def split: if_splits)
    from v have p1: "1 \<le> ?p" and pn: "?p \<le> ?n"
      by (simp_all add: word_le_nat_alt word_less_nat_alt not_le not_less) 
    have ub: "unat begin_edge = (unat ?p - 1) * (unat total_edges div unat ?n)"
      unfolding be by (rule unat_begin_edge [OF True p1 pn])
    from p1 have "1 \<le> unat ?p" by (simp add: word_le_nat_alt)
    then have "(unat ?p - 1) * (unat total_edges div unat ?n) + unat total_edges div unat ?n
               = unat ?p * (unat total_edges div unat ?n)"
      by (cases "unat ?p") simp_all
    also have "\<dots> \<le> unat ?n * (unat total_edges div unat ?n)"
      using pn by (intro mult_le_mono1) (simp add: word_le_nat_alt)
    also have "\<dots> \<le> unat total_edges" by simp
    finally show ?thesis by (simp add: ub ne unat_div)
  qed
qed

lemma blocks_cover:
  "(\<Union>i\<in>{1..N::nat}. {(i - 1) * k ..< (i - 1) * k + k}) = {0 ..< N * k}"
proof (induction N)
  case 0
  then show ?case by simp
next
  case (Suc N)
  have "{1..Suc N} = insert (Suc N) {1..N}" by auto
  then show ?case using Suc by (auto simp: UN_insert)
qed

lemma blocks_disjoint:
  fixes i j :: nat
  assumes "1 \<le> i" "i < j"
  shows "{(i - 1) * k ..< (i - 1) * k + k} \<inter> {(j - 1) * k ..< (j - 1) * k + k} = {}"
proof -
  have "(i - 1) * k + k = i * k" using assms(1) by (cases i) simp_all
  moreover have "i * k \<le> (j - 1) * k" using assms(2) by (intro mult_le_mono1) simp
  ultimately show ?thesis by auto
qed

lemma unat_image_parts:
  fixes nparts :: "64 word"
  shows "unat ` {1..nparts} = {1..unat nparts}"
proof (rule set_eqI, rule iffI)
  fix i assume "i \<in> unat ` {1..nparts}"
  then show "i \<in> {1..unat nparts}" by (auto simp: word_le_nat_alt)
next
  fix i assume i: "i \<in> {1..unat nparts}"
  have "unat nparts < 2 ^ LENGTH(64)" by (rule unsigned_less)
  with i have "i < 2 ^ LENGTH(64)" by simp
  then have u: "unat (of_nat i :: 64 word) = i" by (simp only: unat_of_nat mod_less)
  with i have "(of_nat i :: 64 word) \<in> {1..nparts}" by (simp add: word_le_nat_alt)
  with u show "i \<in> unat ` {1..nparts}" by (metis imageI)
qed

lemma edge_range_valid:
  fixes p nparts t :: "64 word"
  assumes "0 < nparts" "t mod nparts = 0" "p \<in> {1..nparts}"
  shows "edge_range (init_range t (shard nparts p))
         = {(unat p - 1) * (unat t div unat nparts)
            ..< (unat p - 1) * (unat t div unat nparts) + unat t div unat nparts}"
  using assms by (simp add: init_range_valid edge_range_def unat_begin_edge unat_div)

text \<open>
  C1. When \<open>num_parts\<close> divides \<open>total_edges\<close>, every \<open>part_index\<close> in
  \<open>1..num_parts\<close> gets \<open>needed_edges = total_edges / num_parts\<close> and
  \<open>begin_edge = (part_index - 1) * needed_edges\<close> (the product does not wrap); the ranges
  \<open>[begin_edge, begin_edge + needed_edges)\<close> each have \<open>total_edges / num_parts\<close> elements, are
  pairwise disjoint, and their union over \<open>part_index = 1..num_parts\<close> is \<open>[0, total_edges)\<close>.
\<close>

theorem C1_planner_partition:
  fixes total_edges num_parts :: "64 word"
  assumes "0 < num_parts" and "total_edges mod num_parts = 0"
  shows "(\<forall>part_index \<in> {1..num_parts}.
            init_range total_edges (shard num_parts part_index)
              = Inr (total_edges div num_parts, (part_index - 1) * (total_edges div num_parts))
          \<and> card (edge_range (init_range total_edges (shard num_parts part_index)))
              = unat total_edges div unat num_parts)
       \<and> (\<forall>p \<in> {1..num_parts}. \<forall>q \<in> {1..num_parts}. p \<noteq> q \<longrightarrow>
            edge_range (init_range total_edges (shard num_parts p))
              \<inter> edge_range (init_range total_edges (shard num_parts q)) = {})
       \<and> (\<Union>part_index \<in> {1..num_parts}.
            edge_range (init_range total_edges (shard num_parts part_index)))
          = {0 ..< unat total_edges}"
proof (intro conjI ballI impI)
  fix p assume p: "p \<in> {1..num_parts}"
  then show "init_range total_edges (shard num_parts p)
              = Inr (total_edges div num_parts, (p - 1) * (total_edges div num_parts))"
    using assms by (simp add: init_range_valid)
  show "card (edge_range (init_range total_edges (shard num_parts p)))
          = unat total_edges div unat num_parts"
    using assms p by (simp add: edge_range_valid)
next
  fix p q assume p: "p \<in> {1..num_parts}" and q: "q \<in> {1..num_parts}" and ne: "p \<noteq> q"
  have p1: "1 \<le> unat p" and q1: "1 \<le> unat q"
    using p q by (simp_all add: word_le_nat_alt)
  from ne have "unat p < unat q \<or> unat q < unat p"
    by (metis linorder_neqE_nat word_unat_eq_iff)
  then show "edge_range (init_range total_edges (shard num_parts p))
              \<inter> edge_range (init_range total_edges (shard num_parts q)) = {}"
  proof
    assume "unat p < unat q"
    from blocks_disjoint [OF p1 this] show ?thesis
      using assms p q by (simp add: edge_range_valid)
  next
    assume "unat q < unat p"
    from blocks_disjoint [OF q1 this] show ?thesis
      using assms p q by (simp add: edge_range_valid Int_commute)
  qed
next
  let ?k = "unat total_edges div unat num_parts"
  have dvd: "unat num_parts * ?k = unat total_edges"
  proof -
    from assms(2) have "unat (total_edges mod num_parts) = 0" by simp
    then have "unat total_edges mod unat num_parts = 0" by (simp add: unat_mod)
    then show ?thesis by auto
  qed
  have "(\<Union>p \<in> {1..num_parts}. edge_range (init_range total_edges (shard num_parts p)))
        = (\<Union>p \<in> {1..num_parts}. {(unat p - 1) * ?k ..< (unat p - 1) * ?k + ?k})"
    using assms by (simp add: edge_range_valid)
  also have "\<dots> = (\<Union>i \<in> unat ` {1..num_parts}. {(i - 1) * ?k ..< (i - 1) * ?k + ?k})"
    by simp
  also have "\<dots> = {0 ..< unat num_parts * ?k}"
    by (simp only: unat_image_parts blocks_cover)
  finally show "(\<Union>p \<in> {1..num_parts}. edge_range (init_range total_edges (shard num_parts p)))
        = {0 ..< unat total_edges}"
    by (simp only: dvd)
qed

theorem C1_planner_partition_witness:
  "init_range 8 (shard 2 1) = Inr (4, 0)
   \<and> init_range 8 (shard 2 2) = Inr (4, 4)
   \<and> card (edge_range (init_range 8 (shard 2 1))) = 4
   \<and> card (edge_range (init_range 8 (shard 2 2))) = 4
   \<and> edge_range (init_range 8 (shard 2 1)) \<inter> edge_range (init_range 8 (shard 2 2)) = {}
   \<and> (\<Union>part_index \<in> {1..2 :: 64 word}. edge_range (init_range 8 (shard 2 part_index)))
       = {0 ..< 8}"
proof -
  have a: "(0 :: 64 word) < 2" and b: "(8 :: 64 word) mod 2 = 0" by simp_all
  have m1: "(1 :: 64 word) \<in> {1..2}" and m2: "(2 :: 64 word) \<in> {1..2}" by simp_all
  note main = C1_planner_partition [OF a b]
  from main have each: "\<forall>part_index \<in> {1..2 :: 64 word}.
            init_range 8 (shard 2 part_index) = Inr (8 div 2, (part_index - 1) * (8 div 2))
          \<and> card (edge_range (init_range 8 (shard 2 part_index))) = unat (8 :: 64 word) div unat (2 :: 64 word)"
    by (rule conjunct1)
  from main have disj: "\<forall>p \<in> {1..2 :: 64 word}. \<forall>q \<in> {1..2}. p \<noteq> q \<longrightarrow>
            edge_range (init_range 8 (shard 2 p)) \<inter> edge_range (init_range 8 (shard 2 q)) = {}"
    by (rule conjunct2 [THEN conjunct1])
  from main have un: "(\<Union>part_index \<in> {1..2 :: 64 word}. edge_range (init_range 8 (shard 2 part_index)))
          = {0 ..< unat (8 :: 64 word)}"
    by (rule conjunct2 [THEN conjunct2])
  have d12: "edge_range (init_range 8 (shard 2 1)) \<inter> edge_range (init_range 8 (shard 2 2)) = {}"
    using disj [rule_format, OF m1 m2] by simp
  show ?thesis
    using each [rule_format, OF m1] each [rule_format, OF m2] d12 un by auto
qed


lemma init_range_rejects:
  assumes "0 < num_parts"
    and "total_edges mod num_parts \<noteq> 0 \<or> part_index < 1 \<or> num_parts < part_index"
  shows "init_range total_edges (shard num_parts part_index)
         = Inl (if total_edges mod num_parts \<noteq> 0 then Abort_split else Abort_part_bounds)"
  using assms by (auto simp: init_range_def shard_def Let_def word_less_1)


text \<open>
  C7. With sharding requested (\<open>num_parts > 0\<close>), planning aborts when \<open>num_parts\<close> does not
  divide \<open>total_edges\<close> and when \<open>part_index\<close> is outside \<open>[1, num_parts]\<close>; no pair of
  partition values is produced. \<^verbatim>\<open>init\<close> aborts the same way once it has its reader, which
  it gets without opening any backing file.
\<close>

theorem C7_planner_rejects:
  assumes "0 < num_parts"
    and "total_edges mod num_parts \<noteq> 0 \<or> part_index < 1 \<or> num_parts < part_index"
  shows "init_range total_edges (shard num_parts part_index)
           = Inl (if total_edges mod num_parts \<noteq> 0 then Abort_split else Abort_part_bounds)
       \<and> (\<forall>w fe file r.
             init_reader w fe file = Inr r \<and> kr_total_edges r = total_edges \<longrightarrow>
             init w fe file (shard num_parts part_index)
               = Inl (if total_edges mod num_parts \<noteq> 0 then Abort_split else Abort_part_bounds))"
  using init_range_rejects [OF assms] by (simp add: init_def)

theorem C7_planner_rejects_witness:
  "init_range 8 (shard 3 1) = Inl Abort_split
   \<and> init (kron_world 2 2 (\<lambda>_. Some (locked_file []))) fresh ''Kron2-2'' (shard 3 1) = Inl Abort_split
   \<and> init_range 8 (shard 2 0) = Inl Abort_part_bounds
   \<and> init_range 8 (shard 2 3) = Inl Abort_part_bounds"
proof -
  have r: "init_reader (kron_world 2 2 (\<lambda>_. Some (locked_file []))) fresh ''Kron2-2''
           = Inr \<lparr>kr_path = ''Kron2-2'', kr_buffer = (\<lambda>_. (0, 0)), kr_cur = 0, kr_begin = 0,
                  kr_len = 0, kr_file = None, kr_cur_file_id = 0, kr_total_nodes = 4,
                  kr_total_edges = 8, kr_edges_per_file = 0\<rparr>"
    by (simp add: init_reader_def fresh_def kron_world_def kron_reader_ctor_def locked_file_def)
  have a: "(0 :: 64 word) < 3" by simp
  have b: "(8 :: 64 word) mod 3 \<noteq> 0 \<or> (1 :: 64 word) < 1 \<or> (3 :: 64 word) < 1" by simp
  have a2: "(0 :: 64 word) < 2" by simp
  have b2: "(8 :: 64 word) mod 2 \<noteq> 0 \<or> (0 :: 64 word) < 1 \<or> (2 :: 64 word) < 0" by simp
  have b3: "(8 :: 64 word) mod 2 \<noteq> 0 \<or> (3 :: 64 word) < 1 \<or> (2 :: 64 word) < 3" by simp
  from C7_planner_rejects [OF a b] r
  have "init_range 8 (shard 3 1) = Inl Abort_split
        \<and> init (kron_world 2 2 (\<lambda>_. Some (locked_file []))) fresh ''Kron2-2'' (shard 3 1) = Inl Abort_split"
    by simp
  moreover from C7_planner_rejects [OF a2 b2] have "init_range 8 (shard 2 0) = Inl Abort_part_bounds"
    by simp
  moreover from C7_planner_rejects [OF a2 b3] have "init_range 8 (shard 2 3) = Inl Abort_part_bounds"
    by simp
  ultimately show ?thesis by simp
qed


subsection \<open>Size hints\<close>

text \<open>
  C8. \<^verbatim>\<open>stat\<close> of the synthetic-format adapter returns \<open>true\<close> with
  \<open>(total_nodes, needed_edges)\<close> and leaves the adapter and its reader as they were, so the
  next \<^verbatim>\<open>next_edge\<close> is the same with or without it; \<^verbatim>\<open>stat\<close> of the plain-format adapter
  returns \<open>false\<close> and changes nothing either.
\<close>

theorem C8_stat:
  "fst (stat ar) = (True, kr_total_nodes (snd ar), bl_needed_edges (fst ar))
   \<and> snd (stat ar) = ar
   \<and> next_edge w (snd (stat ar)) = next_edge w ar
   \<and> fst (plain_stat l) = False
   \<and> snd (plain_stat l) = l
   \<and> plain_next_edge (snd (plain_stat l)) = plain_next_edge l"
  by (simp add: stat_def plain_stat_def)


subsection \<open>The plain format on two files\<close>

text \<open>
  C6. What the plain loader does on a directory of two files with 3 and 2 records: the first
  \<^verbatim>\<open>fread\<close> of \<^verbatim>\<open>read_buffer\<close> reads the three records of the first file and reaches its
  end, \<^verbatim>\<open>next_file\<close> opens the second file, and the second \<^verbatim>\<open>fread\<close> of the same pass
  overwrites the buffer with the two records of the second file. Two calls succeed, with the
  records of the second file; the third signals exhaustion. With the files in the other order
  three calls succeed, again with the records of the second file only.
\<close>

theorem C6_plain_two_files:
  "map_sum id fst
     (case plain_ctor (\<lambda>_. Some [plain_file [a1, a2, a3], plain_file [b1, b2]]) dir of
        Inl e \<Rightarrow> Inl e
      | Inr l \<Rightarrow> plain_next_edges 3 l)
   = Inr [Some \<lparr>o_tail = snd b1, o_head = fst b1\<rparr>, Some \<lparr>o_tail = snd b2, o_head = fst b2\<rparr>, None]
   \<and> map_sum id fst
     (case plain_ctor (\<lambda>_. Some [plain_file [b1, b2], plain_file [a1, a2, a3]]) dir of
        Inl e \<Rightarrow> Inl e
      | Inr l \<Rightarrow> plain_next_edges 4 l)
   = Inr [Some \<lparr>o_tail = snd a1, o_head = fst a1\<rparr>, Some \<lparr>o_tail = snd a2, o_head = fst a2\<rparr>,
          Some \<lparr>o_tail = snd a3, o_head = fst a3\<rparr>, None]"
proof -
  have four: "(4 :: nat) = Suc (Suc (Suc (Suc 0)))" by simp
  show ?thesis
    unfolding four
    by (simp add: plain_ctor_def plain_file_def plain_rewind_def open_file_def fopen_def
        plain_next_edge_def read_buffer_body_def fread_buffer_def fread_def
        next_file_def fclose_def store_def BUFFER_SIZE_def Let_def numeral_3_eq_3)
qed

subsection \<open>The reader over a uniform store\<close>

lemma fread_after_fseek:
  fixes off :: "64 word"
  assumes "\<not> faulty (s_file s)" "unat off < 2 ^ 59"
  shows "fread BUFFER_SIZE (fseek_set s (off * 16))
         = (take BUFFER_SIZE (drop (unat off) (recs (s_file s))),
            s\<lparr>s_pos := 16 * unat off + 16 * length (take BUFFER_SIZE (drop (unat off) (recs (s_file s)))),
              s_eof := length (take BUFFER_SIZE (drop (unat off) (recs (s_file s)))) < BUFFER_SIZE\<rparr>)"
proof -
  have "unat off * unat (16 :: 64 word) < 2 ^ LENGTH(64)"
    using assms(2) by simp
  then have u: "unat (off * 16) = unat off * unat (16 :: 64 word)"
    by (rule unat_mult_lem [THEN iffD1])
  then have u16: "unat (off * 16) = unat off * 16" by simp
  have "unat off * 16 < 2 ^ 63" using assms(2) by simp
  then have "\<not> (2 ^ 63 \<le> unat (off * 16))" by (simp only: u16 not_le)
  then have fs: "fseek_set s (off * 16) = s\<lparr>s_pos := unat off * 16, s_eof := False\<rparr>"
    by (simp only: fseek_set_def u16 if_False)
  show ?thesis
    using assms(1) by (simp add: fs fread_def Let_def)
qed


lemma uniform_store_cong:
  "kr_path r' = kr_path r \<Longrightarrow> kr_total_edges r' = kr_total_edges r
   \<Longrightarrow> kr_edges_per_file r' = kr_edges_per_file r
   \<Longrightarrow> uniform_store w r' = uniform_store w r"
  by (simp add: uniform_store_def)

lemma disk_record_cong:
  "kr_path r' = kr_path r \<Longrightarrow> kr_edges_per_file r' = kr_edges_per_file r
   \<Longrightarrow> disk_record w r' = disk_record w r"
  by (simp add: disk_record_def fun_eq_iff split: option.splits)

lemma uniform_store_file:
  assumes "uniform_store w r" "N < unat (kr_total_edges r)"
  shows "\<exists>d. dir_of w (kr_path r) (N div unat (kr_edges_per_file r)) = Some d
             \<and> openable d \<and> \<not> faulty d
             \<and> N mod unat (kr_edges_per_file r) < length (recs d)
             \<and> length (recs d) \<le> unat (kr_edges_per_file r)"
proof -
  let ?E = "unat (kr_edges_per_file r)" and ?T = "unat (kr_total_edges r)"
  let ?f = "N div ?E"
  from assms(1) have E: "0 < ?E" by (simp add: uniform_store_def)
  have le: "?f * ?E \<le> N" by simp
  from le assms(2) have "?f * ?E < ?T" by (rule le_less_trans)
  with assms(1) have "file_ok ?E (min ?E (?T - ?f * ?E)) (dir_of w (kr_path r) ?f)"
    by (simp add: uniform_store_def)
  then obtain d where d: "dir_of w (kr_path r) ?f = Some d" "openable d" "\<not> faulty d"
    "min ?E (?T - ?f * ?E) \<le> length (recs d)" "length (recs d) \<le> ?E"
    by (auto simp: file_ok_def split: option.splits)
  have "N mod ?E < ?E" using E by simp
  moreover have "N mod ?E < ?T - ?f * ?E"
  proof -
    have "N = ?f * ?E + N mod ?E" by simp
    with assms(2) show ?thesis by linarith
  qed
  ultimately have "N mod ?E < min ?E (?T - ?f * ?E)" by simp
  with d show ?thesis by auto
qed

lemma disk_record_in_file:
  assumes "dir_of w (kr_path r) (N div unat (kr_edges_per_file r)) = Some d"
    and "N mod unat (kr_edges_per_file r) + i < length (recs d)"
    and "length (recs d) \<le> unat (kr_edges_per_file r)"
  shows "disk_record w r (N + i) = Some (recs d ! (N mod unat (kr_edges_per_file r) + i))"
proof -
  let ?E = "unat (kr_edges_per_file r)"
  from assms(2,3) have lt: "N mod ?E + i < ?E" by simp
  then have E: "0 < ?E" by simp
  have "N + i = (N div ?E) * ?E + (N mod ?E + i)" by simp
  then have dv: "(N + i) div ?E = N div ?E" and md: "(N + i) mod ?E = N mod ?E + i"
    using lt by (metis div_mult_self3 div_less add_cancel_right_right less_numeral_extra(3) E,
                 metis mod_mult_self3 mod_less)
  show ?thesis using assms by (simp add: disk_record_def dv md)
qed

lemma seek_open_ok:
  assumes "stream_ok w r" "dir_of w (kr_path r) (unat fid) = Some d" "openable d"
  shows "\<exists>s. seek_open w r fid = Inr (s, fid) \<and> s_file s = d \<and> \<not> s_err s"
proof (cases "kr_file r")
  case None
  with assms show ?thesis by (simp add: seek_open_def fopen_def)
next
  case (Some s0)
  show ?thesis
  proof (cases "fid = kr_cur_file_id r")
    case True
    with Some assms show ?thesis by (simp add: seek_open_def stream_ok_def)
  next
    case False
    with Some assms show ?thesis by (simp add: seek_open_def fopen_def)
  qed
qed


lemma seek_reads_file:
  assumes ok: "reader_ok w r" and lt: "n < kr_total_edges r"
    and nw: "\<not> (kr_begin r \<le> n \<and> n < kr_begin r + kr_len r)"
  shows "\<exists>r'. seek w n r = Inr (True, r') \<and> reader_ok w r' \<and> kr_begin r' = n
              \<and> kr_cur r' = 0 \<and> 0 < kr_len r' \<and> kr_params r' = kr_params r"
proof -
  let ?E = "unat (kr_edges_per_file r)" and ?N = "unat n"
  let ?off = "?N mod ?E"
  from ok have us: "uniform_store w r" and so: "stream_ok w r"
    by (simp_all add: reader_ok_def)
  from us have E0: "0 < ?E" and E59: "?E < 2 ^ 59" and T63: "unat (kr_total_edges r) < 2 ^ 63"
    by (simp_all add: uniform_store_def)
  from E0 have epf0: "kr_edges_per_file r \<noteq> 0" by (metis unat_0 less_numeral_extra(3))
  from lt have N: "?N < unat (kr_total_edges r)" by (simp add: word_less_nat_alt)
  from uniform_store_file [OF us N] obtain d where
    d: "dir_of w (kr_path r) (?N div ?E) = Some d" "openable d" "\<not> faulty d"
       "?off < length (recs d)" "length (recs d) \<le> ?E"
    by blast
  have fid: "unat (n div kr_edges_per_file r) = ?N div ?E" by (simp add: unat_div)
  have off: "unat (n mod kr_edges_per_file r) = ?off" by (simp add: unat_mod)
  from seek_open_ok [OF so d(1) [folded fid] d(2)] obtain s where
    s: "seek_open w r (n div kr_edges_per_file r) = Inr (s, n div kr_edges_per_file r)"
       "s_file s = d" "\<not> s_err s"
    by blast
  define chunk where "chunk = take BUFFER_SIZE (drop ?off (recs d))"
  define s' where "s' = s\<lparr>s_pos := 16 * ?off + 16 * length chunk,
                           s_eof := length chunk < BUFFER_SIZE\<rparr>"
  have "?off < ?E" using E0 by simp
  with E59 have "unat (n mod kr_edges_per_file r) < 2 ^ 59" by (simp only: off)
  from fread_after_fseek [OF _ this, of s] d(3) s(2)
  have fr: "fread BUFFER_SIZE (fseek_set s (n mod kr_edges_per_file r * 16)) = (chunk, s')"
    by (simp add: chunk_def s'_def off)
  define r' where "r' = r\<lparr>kr_buffer := store (kr_buffer r) chunk, kr_cur := 0, kr_begin := n,
                           kr_len := of_nat (length chunk), kr_file := Some s',
                           kr_cur_file_id := n div kr_edges_per_file r\<rparr>"
  have err: "\<not> s_err s'" using s(3) by (simp add: s'_def)
  have nt: "\<not> kr_total_edges r \<le> n" using lt by simp
  have sk: "seek w n r = Inr (True, r')"
    unfolding seek_def Let_def
    by (simp only: nt nw epf0 s(1) fr err if_False sum.case prod.case r'_def)
  have clen: "length chunk \<le> BUFFER_SIZE" and cpos: "0 < length chunk"
    using d(4) by (simp_all add: chunk_def BUFFER_SIZE_def)
  have "length chunk < 2 ^ LENGTH(64)" using clen by (simp add: BUFFER_SIZE_def)
  then have ulen: "unat (of_nat (length chunk) :: 64 word) = length chunk"
    by (simp only: unat_of_nat mod_less)
  have par: "kr_params r' = kr_params r" by (simp add: kr_params_def r'_def)
  have us': "uniform_store w r'"
    using us by (simp add: uniform_store_def r'_def)
  have so': "stream_ok w r'"
    using d(1) s(2) err by (simp add: stream_ok_def r'_def fid s'_def)
  have len': "unat (kr_len r') = length chunk" by (simp add: r'_def ulen)
  have nov: "unat (kr_begin r') + unat (kr_len r') < 2 ^ 64"
  proof -
    have "?N < 2 ^ 63" using N T63 by simp
    moreover have "length chunk \<le> 2 ^ 20" using clen by (simp add: BUFFER_SIZE_def)
    ultimately have "?N + length chunk < 2 ^ 64" by simp
    then show ?thesis by (simp add: r'_def ulen)
  qed
  have buf: "\<forall>i < unat (kr_len r'). disk_record w r' (unat (kr_begin r') + i) = Some (kr_buffer r' i)"
  proof (intro allI impI)
    fix i assume "i < unat (kr_len r')"
    then have i: "i < length chunk" by (simp only: len')
    then have il: "?off + i < length (recs d)" by (auto simp: chunk_def)
    have "disk_record w r (?N + i) = Some (recs d ! (?off + i))"
      by (rule disk_record_in_file [OF d(1) il d(5)])
    moreover have "chunk ! i = recs d ! (?off + i)"
      using i d(4) by (simp add: chunk_def)
    moreover have "disk_record w r' = disk_record w r"
      by (rule disk_record_cong) (simp_all add: r'_def)
    ultimately show "disk_record w r' (unat (kr_begin r') + i) = Some (kr_buffer r' i)"
      using i by (simp add: r'_def store_def)
  qed
  have "reader_ok w r'"
    unfolding reader_ok_def
    using us' so' nov buf clen by (simp add: len') (simp add: r'_def)
  moreover have "0 < kr_len r'"
    using cpos len' by (simp add: word_less_nat_alt)
  ultimately show ?thesis using sk par by (auto simp: r'_def)
qed

lemma reader_ok_cur:
  assumes "reader_ok w r" "c \<le> kr_len r"
  shows "reader_ok w (r\<lparr>kr_cur := c\<rparr>)"
proof -
  have "uniform_store w (r\<lparr>kr_cur := c\<rparr>) = uniform_store w r"
    by (rule uniform_store_cong) simp_all
  moreover have "disk_record w (r\<lparr>kr_cur := c\<rparr>) = disk_record w r"
    by (rule disk_record_cong) simp_all
  moreover have "stream_ok w (r\<lparr>kr_cur := c\<rparr>) = stream_ok w r"
    by (simp add: stream_ok_def split: option.splits)
  ultimately show ?thesis using assms by (simp add: reader_ok_def)
qed

lemma seek_in_window:
  assumes ok: "reader_ok w r" and lt: "n < kr_total_edges r"
    and iw: "kr_begin r \<le> n \<and> n < kr_begin r + kr_len r"
  shows "seek w n r = Inr (True, r\<lparr>kr_cur := n - kr_begin r\<rparr>)
         \<and> reader_ok w (r\<lparr>kr_cur := n - kr_begin r\<rparr>)
         \<and> n - kr_begin r < kr_len r
         \<and> unat (kr_begin r) + unat (n - kr_begin r) = unat n"
proof -
  from ok have nov: "unat (kr_begin r) + unat (kr_len r) < 2 ^ LENGTH(64)"
    by (simp add: reader_ok_def)
  then have ua: "unat (kr_begin r + kr_len r) = unat (kr_begin r) + unat (kr_len r)"
    by (rule unat_add_lem [THEN iffD1])
  from iw have le: "unat (kr_begin r) \<le> unat n" and l: "unat n < unat (kr_begin r) + unat (kr_len r)"
    by (simp_all add: word_le_nat_alt word_less_nat_alt ua)
  from iw have us: "unat (n - kr_begin r) = unat n - unat (kr_begin r)"
    by (simp add: unat_sub)
  have c: "n - kr_begin r < kr_len r"
    using le l by (simp add: word_less_nat_alt us)
  have nt: "\<not> kr_total_edges r \<le> n" using lt by simp
  have "seek w n r = Inr (True, r\<lparr>kr_cur := n - kr_begin r\<rparr>)"
    unfolding seek_def using nt iw by simp
  moreover have "reader_ok w (r\<lparr>kr_cur := n - kr_begin r\<rparr>)"
    using ok c by (intro reader_ok_cur) simp_all
  ultimately show ?thesis using c us le by simp
qed

lemma seek_ok:
  assumes ok: "reader_ok w r" and lt: "n < kr_total_edges r"
  shows "\<exists>r'. seek w n r = Inr (True, r') \<and> reader_ok w r' \<and> kr_pos r' = unat n
              \<and> kr_cur r' < kr_len r' \<and> kr_params r' = kr_params r"
proof (cases "kr_begin r \<le> n \<and> n < kr_begin r + kr_len r")
  case True
  from seek_in_window [OF ok lt True] show ?thesis
    by (auto simp: kr_pos_def kr_params_def)
next
  case False
  from seek_reads_file [OF ok lt False] show ?thesis
    by (auto simp: kr_pos_def)
qed

lemma edge_at_params:
  "kr_params r' = kr_params r \<Longrightarrow> edge_at w r' = edge_at w r"
  using disk_record_cong [of r' r w] by (simp add: edge_at_def kr_params_def fun_eq_iff)

lemma unat_Suc_less:
  fixes c l :: "64 word"
  assumes "c < l"
  shows "unat (c + 1) = unat c + 1" and "c + 1 \<le> l"
proof -
  from assms have lt: "unat c < unat l" by (simp add: word_less_nat_alt)
  have "unat l < 2 ^ LENGTH(64)" by (rule unsigned_less)
  with lt have "unat c + unat (1 :: 64 word) < 2 ^ LENGTH(64)" by simp
  then have "unat (c + 1) = unat c + unat (1 :: 64 word)"
    by (rule unat_add_lem [THEN iffD1])
  then show u: "unat (c + 1) = unat c + 1" by simp
  show "c + 1 \<le> l" using lt by (simp add: word_le_nat_alt u)
qed

lemma next_rec_buffered:
  assumes ok: "reader_ok w r" and c: "kr_cur r < kr_len r"
  shows "next_rec w r = Inr (edge_at w r (kr_pos r), r\<lparr>kr_cur := kr_cur r + 1\<rparr>)
         \<and> edge_at w r (kr_pos r) \<noteq> None
         \<and> reader_ok w (r\<lparr>kr_cur := kr_cur r + 1\<rparr>)
         \<and> kr_pos (r\<lparr>kr_cur := kr_cur r + 1\<rparr>) = kr_pos r + 1"
proof -
  from c have ne: "kr_cur r \<noteq> kr_len r" by simp
  from c have lt: "unat (kr_cur r) < unat (kr_len r)" by (simp add: word_less_nat_alt)
  from ok have "unat (kr_len r) \<le> BUFFER_SIZE" by (simp add: reader_ok_def)
  with lt have nb: "\<not> BUFFER_SIZE \<le> unat (kr_cur r)" by simp
  from ok lt have rec: "disk_record w r (kr_pos r) = Some (kr_buffer r (unat (kr_cur r)))"
    by (simp add: reader_ok_def kr_pos_def)
  have "next_rec w r = Inr (edge_at w r (kr_pos r), r\<lparr>kr_cur := kr_cur r + 1\<rparr>)"
    using ne nb by (simp add: next_rec_def edge_at_def rec swapped_def)
  moreover have "edge_at w r (kr_pos r) \<noteq> None" by (simp add: edge_at_def rec)
  moreover have "reader_ok w (r\<lparr>kr_cur := kr_cur r + 1\<rparr>)"
    using ok unat_Suc_less(2) [OF c] by (rule reader_ok_cur)
  moreover have "kr_pos (r\<lparr>kr_cur := kr_cur r + 1\<rparr>) = kr_pos r + 1"
    by (simp add: kr_pos_def unat_Suc_less(1) [OF c])
  ultimately show ?thesis by simp
qed

lemma next_rec_refill:
  assumes "kr_cur r = kr_len r" "seek w (kr_begin r + kr_len r) r = Inr (True, r1)"
    "kr_cur r1 \<noteq> kr_len r1"
  shows "next_rec w r = next_rec w r1"
proof -
  have "next_rec w r =
        (if BUFFER_SIZE \<le> unat (kr_cur r1) then Inl Undefined_behaviour
          else Inr (Some \<lparr>o_tail = snd (kr_buffer r1 (unat (kr_cur r1))),
                          o_head = fst (kr_buffer r1 (unat (kr_cur r1)))\<rparr>,
                    r1\<lparr>kr_cur := kr_cur r1 + 1\<rparr>))"
    unfolding next_rec_def by (simp only: assms(1,2) if_True sum.case prod.case simp_thms if_False)
  also have "\<dots> = next_rec w r1"
    unfolding next_rec_def by (simp only: assms(3) if_True sum.case prod.case simp_thms if_False)
  finally show ?thesis .
qed

lemma next_rec_ok:
  assumes ok: "reader_ok w r" and p: "kr_pos r < unat (kr_total_edges r)"
  shows "\<exists>r'. next_rec w r = Inr (edge_at w r (kr_pos r), r')
              \<and> edge_at w r (kr_pos r) \<noteq> None
              \<and> reader_ok w r' \<and> kr_pos r' = kr_pos r + 1 \<and> kr_params r' = kr_params r"
proof (cases "kr_cur r = kr_len r")
  case False
  with ok have "kr_cur r < kr_len r" by (auto simp: reader_ok_def)
  from next_rec_buffered [OF ok this] show ?thesis
    by (intro exI [of _ "r\<lparr>kr_cur := kr_cur r + 1\<rparr>"]) (simp add: kr_params_def)
next
  case True
  from ok have "unat (kr_begin r) + unat (kr_len r) < 2 ^ LENGTH(64)"
    by (simp add: reader_ok_def)
  then have ua: "unat (kr_begin r + kr_len r) = kr_pos r"
    using True by (simp add: kr_pos_def unat_add_lem [THEN iffD1])
  with p have lt: "kr_begin r + kr_len r < kr_total_edges r"
    by (simp add: word_less_nat_alt)
  from seek_ok [OF ok lt] obtain r1 where
    r1: "seek w (kr_begin r + kr_len r) r = Inr (True, r1)" "reader_ok w r1"
        "kr_pos r1 = kr_pos r" "kr_cur r1 < kr_len r1" "kr_params r1 = kr_params r"
    by (auto simp: ua)
  have "kr_cur r1 \<noteq> kr_len r1" using r1(4) by simp
  then have unfold: "next_rec w r = next_rec w r1"
    by (rule next_rec_refill [OF True r1(1)])
  note nb = next_rec_buffered [OF r1(2,4), unfolded edge_at_params [OF r1(5)] r1(3), folded unfold]
  have kp: "kr_params (r1\<lparr>kr_cur := kr_cur r1 + 1\<rparr>) = kr_params r"
    using r1(5) by (simp add: kr_params_def)
  show ?thesis
    by (rule exI [of _ "r1\<lparr>kr_cur := kr_cur r1 + 1\<rparr>"]) (use nb kp in blast)
qed

lemma seek_params: "seek w n r = Inr (b, r') \<Longrightarrow> kr_params r' = kr_params r"
  by (auto simp: seek_def Let_def kr_params_def split: if_splits sum.splits prod.splits)

lemma next_recs_ok:
  assumes "reader_ok w r" "kr_pos r + j \<le> unat (kr_total_edges r)"
  shows "\<exists>r'. next_recs w j r = Inr (map (edge_at w r) [kr_pos r ..< kr_pos r + j], r')
              \<and> reader_ok w r' \<and> kr_pos r' = kr_pos r + j \<and> kr_params r' = kr_params r"
  using assms
proof (induction j arbitrary: r)
  case 0
  then show ?case by simp
next
  case (Suc j)
  from Suc.prems(2) have p: "kr_pos r < unat (kr_total_edges r)" by simp
  from next_rec_ok [OF Suc.prems(1) p] obtain r1 where
    r1: "next_rec w r = Inr (edge_at w r (kr_pos r), r1)" "reader_ok w r1"
        "kr_pos r1 = kr_pos r + 1" "kr_params r1 = kr_params r"
    by blast
  from r1(4) have te: "kr_total_edges r1 = kr_total_edges r" by (simp add: kr_params_def)
  from Suc.prems(2) have "kr_pos r1 + j \<le> unat (kr_total_edges r1)" by (simp add: r1(3) te)
  from Suc.IH [OF r1(2) this] obtain r' where
    r': "next_recs w j r1 = Inr (map (edge_at w r1) [kr_pos r1 ..< kr_pos r1 + j], r')"
        "reader_ok w r'" "kr_pos r' = kr_pos r1 + j" "kr_params r' = kr_params r1"
    by blast
  have l: "[kr_pos r ..< kr_pos r + Suc j] = kr_pos r # [kr_pos r1 ..< kr_pos r1 + j]"
    by (simp add: r1(3) upt_conv_Cons)
  have "next_recs w (Suc j) r = Inr (map (edge_at w r) [kr_pos r ..< kr_pos r + Suc j], r')"
    by (simp only: next_recs.simps r1(1) r'(1) sum.case prod.case l list.map edge_at_params [OF r1(4)])
  with r' r1 show ?case by (intro exI [of _ r']) simp
qed

lemma next_edges_ok:
  assumes "reader_ok w r" "kr_pos r + j \<le> unat (kr_total_edges r)"
    and "unat (bl_loaded_edges a) + j \<le> unat (bl_needed_edges a)"
  shows "\<exists>a' r'. next_edges w j (a, r)
                  = Inr (map (edge_at w r) [kr_pos r ..< kr_pos r + j], (a', r'))
              \<and> reader_ok w r' \<and> kr_pos r' = kr_pos r + j \<and> kr_params r' = kr_params r
              \<and> bl_begin_edge a' = bl_begin_edge a \<and> bl_needed_edges a' = bl_needed_edges a
              \<and> unat (bl_loaded_edges a') = unat (bl_loaded_edges a) + j"
  using assms
proof (induction j arbitrary: a r)
  case 0
  then show ?case by simp
next
  case (Suc j)
  from Suc.prems(2) have p: "kr_pos r < unat (kr_total_edges r)" by simp
  from Suc.prems(3) have ll: "bl_loaded_edges a < bl_needed_edges a"
    by (simp add: word_less_nat_alt)
  then have ne: "bl_loaded_edges a \<noteq> bl_needed_edges a" by simp
  from next_rec_ok [OF Suc.prems(1) p] obtain r1 where
    r1: "next_rec w r = Inr (edge_at w r (kr_pos r), r1)" "edge_at w r (kr_pos r) \<noteq> None"
        "reader_ok w r1" "kr_pos r1 = kr_pos r + 1" "kr_params r1 = kr_params r"
    by blast
  define a1 where "a1 = a\<lparr>bl_loaded_edges := bl_loaded_edges a + 1\<rparr>"
  have ne1: "next_edge w (a, r) = Inr (edge_at w r (kr_pos r), (a1, r1))"
    using ne r1(1,2) by (simp add: next_edge_def a1_def)
  have ul: "unat (bl_loaded_edges a1) = unat (bl_loaded_edges a) + 1"
    by (simp add: a1_def unat_Suc_less(1) [OF ll])
  from r1(5) have te: "kr_total_edges r1 = kr_total_edges r" by (simp add: kr_params_def)
  from Suc.prems(2) have b1: "kr_pos r1 + j \<le> unat (kr_total_edges r1)" by (simp add: r1(4) te)
  from Suc.prems(3) have b2: "unat (bl_loaded_edges a1) + j \<le> unat (bl_needed_edges a1)"
    by (simp add: ul) (simp add: a1_def)
  from Suc.IH [OF r1(3) b1 b2] obtain a' r' where
    r': "next_edges w j (a1, r1) = Inr (map (edge_at w r1) [kr_pos r1 ..< kr_pos r1 + j], (a', r'))"
        "reader_ok w r'" "kr_pos r' = kr_pos r1 + j" "kr_params r' = kr_params r1"
        "bl_begin_edge a' = bl_begin_edge a1" "bl_needed_edges a' = bl_needed_edges a1"
        "unat (bl_loaded_edges a') = unat (bl_loaded_edges a1) + j"
    by blast
  have l: "[kr_pos r ..< kr_pos r + Suc j] = kr_pos r # [kr_pos r1 ..< kr_pos r1 + j]"
    by (simp add: r1(4) upt_conv_Cons)
  have "next_edges w (Suc j) (a, r)
        = Inr (map (edge_at w r) [kr_pos r ..< kr_pos r + Suc j], (a', r'))"
    by (simp only: next_edges.simps ne1 r'(1) sum.case prod.case l list.map edge_at_params [OF r1(5)])
  moreover have "bl_begin_edge a1 = bl_begin_edge a" "bl_needed_edges a1 = bl_needed_edges a"
    by (simp_all add: a1_def)
  ultimately show ?case using r' r1 ul by (intro exI [of _ a'] exI [of _ r']) simp
qed

lemma edge_at_defined:
  assumes "uniform_store w r" "N < unat (kr_total_edges r)"
  shows "\<exists>e. disk_record w r N = Some e \<and> edge_at w r N = Some \<lparr>o_tail = snd e, o_head = fst e\<rparr>"
proof -
  from uniform_store_file [OF assms] obtain d where
    "dir_of w (kr_path r) (N div unat (kr_edges_per_file r)) = Some d"
    "N mod unat (kr_edges_per_file r) < length (recs d)"
    by blast
  then show ?thesis by (simp add: edge_at_def disk_record_def swapped_def)
qed

lemma rewind_ok:
  assumes ok: "reader_ok w r"
    and fit: "unat (bl_begin_edge a) + unat (bl_needed_edges a) \<le> unat (kr_total_edges r)"
  shows "\<exists>r1. rewind w (a, r) = Inr (a\<lparr>bl_loaded_edges := 0\<rparr>, r1)
              \<and> reader_ok w r1 \<and> kr_params r1 = kr_params r
              \<and> (bl_begin_edge a < kr_total_edges r \<longrightarrow> kr_pos r1 = unat (bl_begin_edge a))
              \<and> (bl_begin_edge a < kr_total_edges r \<or> bl_needed_edges a = 0)"
proof (cases "bl_begin_edge a < kr_total_edges r")
  case True
  from seek_ok [OF ok True] obtain r1 where
    "seek w (bl_begin_edge a) r = Inr (True, r1)" "reader_ok w r1"
    "kr_pos r1 = unat (bl_begin_edge a)" "kr_params r1 = kr_params r"
    by blast
  with True show ?thesis by (intro exI [of _ r1]) (simp add: rewind_def)
next
  case False
  then have ge: "kr_total_edges r \<le> bl_begin_edge a" by simp
  then have "unat (kr_total_edges r) \<le> unat (bl_begin_edge a)" by (simp add: word_le_nat_alt)
  with fit have "unat (bl_needed_edges a) = 0" by simp
  then have z: "bl_needed_edges a = 0" by (simp add: unat_eq_0)
  from ge have "seek w (bl_begin_edge a) r = Inr (False, r)" by (simp add: seek_def)
  with ok z False show ?thesis by (intro exI [of _ r]) (simp add: rewind_def)
qed

lemma pass_ok:
  assumes ok: "reader_ok w r"
    and fit: "unat (bl_begin_edge a) + unat (bl_needed_edges a) \<le> unat (kr_total_edges r)"
  shows "\<exists>a1 r1 a' r'.
           rewind w (a, r) = Inr (a1, r1)
           \<and> bl_needed_edges a1 = bl_needed_edges a
           \<and> next_edges w (unat (bl_needed_edges a)) (a1, r1)
               = Inr (map (edge_at w r)
                        [unat (bl_begin_edge a) ..< unat (bl_begin_edge a) + unat (bl_needed_edges a)],
                      (a', r'))
           \<and> reader_ok w r' \<and> kr_params r' = kr_params r
           \<and> bl_begin_edge a' = bl_begin_edge a \<and> bl_needed_edges a' = bl_needed_edges a
           \<and> bl_loaded_edges a' = bl_needed_edges a'
           \<and> (bl_begin_edge a < kr_total_edges r
                 \<longrightarrow> kr_pos r' = unat (bl_begin_edge a) + unat (bl_needed_edges a))"
proof -
  define a1 where "a1 = a\<lparr>bl_loaded_edges := 0\<rparr>"
  from rewind_ok [OF ok fit] obtain r1 where
    r1: "rewind w (a, r) = Inr (a1, r1)" "reader_ok w r1" "kr_params r1 = kr_params r"
        "bl_begin_edge a < kr_total_edges r \<longrightarrow> kr_pos r1 = unat (bl_begin_edge a)"
        "bl_begin_edge a < kr_total_edges r \<or> bl_needed_edges a = 0"
    by (auto simp: a1_def)
  have a1: "bl_needed_edges a1 = bl_needed_edges a" "bl_begin_edge a1 = bl_begin_edge a"
    "bl_loaded_edges a1 = 0"
    by (simp_all add: a1_def)
  show ?thesis
  proof (cases "bl_begin_edge a < kr_total_edges r")
    case False
    with r1(5) have "bl_needed_edges a = 0" by simp
    with r1 a1 False show ?thesis
      by (intro exI [of _ a1] exI [of _ r1]) simp
  next
    case True
    with r1(4) have pos: "kr_pos r1 = unat (bl_begin_edge a)" by simp
    from r1(3) have te: "kr_total_edges r1 = kr_total_edges r" by (simp add: kr_params_def)
    have b1: "kr_pos r1 + unat (bl_needed_edges a) \<le> unat (kr_total_edges r1)"
      using fit by (simp add: pos te)
    have b2: "unat (bl_loaded_edges a1) + unat (bl_needed_edges a) \<le> unat (bl_needed_edges a1)"
      by (simp add: a1)
    from next_edges_ok [OF r1(2) b1 b2] obtain a' r' where
      r': "next_edges w (unat (bl_needed_edges a)) (a1, r1)
             = Inr (map (edge_at w r1) [kr_pos r1 ..< kr_pos r1 + unat (bl_needed_edges a)], (a', r'))"
          "reader_ok w r'" "kr_pos r' = kr_pos r1 + unat (bl_needed_edges a)"
          "kr_params r' = kr_params r1"
          "bl_begin_edge a' = bl_begin_edge a1" "bl_needed_edges a' = bl_needed_edges a1"
          "unat (bl_loaded_edges a') = unat (bl_loaded_edges a1) + unat (bl_needed_edges a)"
      by blast
    from r'(6,7) have "unat (bl_loaded_edges a') = unat (bl_needed_edges a')" by (simp add: a1)
    then have full: "bl_loaded_edges a' = bl_needed_edges a'" by (simp only: word_unat_eq_iff)
    note run = r'(1) [unfolded edge_at_params [OF r1(3)] pos]
    show ?thesis
      using r1(1) a1 run r'(2-6) r1(3) full pos
      by (intro exI [of _ a1] exI [of _ r1] exI [of _ a'] exI [of _ r']) simp
  qed
qed

lemma next_edge_exhausted:
  "bl_loaded_edges a = bl_needed_edges a \<Longrightarrow> next_edge w (a, r) = Inr (None, (a, r))"
  by (simp add: next_edge_def)

lemma edges_defined:
  assumes "uniform_store w r" "b + k \<le> unat (kr_total_edges r)"
  shows "None \<notin> set (map (edge_at w r) [b ..< b + k])"
proof
  assume "None \<in> set (map (edge_at w r) [b ..< b + k])"
  then obtain i where i: "b \<le> i" "i < b + k" "edge_at w r i = None" by auto
  from i(2) assms(2) have "i < unat (kr_total_edges r)" by simp
  from edge_at_defined [OF assms(1) this] i(3) show False by auto
qed

subsection \<open>The concrete stores are well formed\<close>

lemma demo_ctor: "kron_reader_ctor demo_world ''Kron2-2'' = Inr demo_reader"
  by (simp add: kron_reader_ctor_def demo_world_def kron_world_def demo_dir_def plain_file_def
      demo_reader_def)

lemma demo_uniform: "uniform_store demo_world demo_reader"
proof -
  have "file_ok 4 (min 4 (8 - f * 4)) (demo_dir f)" if "f * 4 < 8" for f
  proof -
    from that have "f = 0 \<or> f = 1" by arith
    then show ?thesis by (auto simp: demo_dir_def file_ok_def plain_file_def)
  qed
  then show ?thesis
    by (simp add: uniform_store_def demo_reader_def demo_world_def kron_world_def)
qed

lemma demo_ok: "reader_ok demo_world demo_reader"
  using demo_uniform
  by (simp add: reader_ok_def stream_ok_def) (simp add: demo_reader_def BUFFER_SIZE_def)

lemma demo_edges:
  "map (edge_at demo_world demo_reader) [0 ..< 8]
   = [Some \<lparr>o_tail = 11, o_head = 10\<rparr>, Some \<lparr>o_tail = 13, o_head = 12\<rparr>,
      Some \<lparr>o_tail = 15, o_head = 14\<rparr>, Some \<lparr>o_tail = 17, o_head = 16\<rparr>,
      Some \<lparr>o_tail = 19, o_head = 18\<rparr>, Some \<lparr>o_tail = 21, o_head = 20\<rparr>,
      Some \<lparr>o_tail = 23, o_head = 22\<rparr>, Some \<lparr>o_tail = 25, o_head = 24\<rparr>]"
  by (simp add: edge_at_def disk_record_def demo_world_def kron_world_def demo_reader_def
      demo_dir_def plain_file_def swapped_def upt_rec)


subsection \<open>The adapter: partition boundary, restart\<close>

text \<open>
  C2. Over a uniform store, an adapter built with \<open>needed_edges = k\<close> and \<open>begin_edge\<close>
  such that \<open>begin_edge + k \<le> total_edges\<close> returns on \<open>k\<close> calls of \<^verbatim>\<open>next_edge\<close> the
  \<open>k\<close> edges of the records \<open>begin_edge, ..., begin_edge + k - 1\<close> (none of them a failure),
  and the next call returns \<open>false\<close> and changes nothing, although, when the stream extends
  beyond \<open>begin_edge + k\<close>, the reader's own \<^verbatim>\<open>next\<close> would still return a record.
\<close>

theorem C2_adapter_stops_at_needed:
  assumes ok: "reader_ok w r"
    and fit: "unat begin_edge + unat k \<le> unat (kr_total_edges r)"
  shows "\<exists>a r1 a' r'.
           bin_loader_ctor w r k begin_edge = Inr (a, r1)
           \<and> next_edges w (unat k) (a, r1)
               = Inr (map (edge_at w r) [unat begin_edge ..< unat begin_edge + unat k], (a', r'))
           \<and> None \<notin> set (map (edge_at w r) [unat begin_edge ..< unat begin_edge + unat k])
           \<and> next_edge w (a', r') = Inr (None, (a', r'))
           \<and> (unat begin_edge + unat k < unat (kr_total_edges r)
                 \<longrightarrow> (\<exists>e r''. next_rec w r' = Inr (Some e, r'')))"
proof -
  define a0 where
    "a0 = \<lparr>bl_begin_edge = begin_edge, bl_needed_edges = k, bl_loaded_edges = 0\<rparr>"
  have a0: "bl_begin_edge a0 = begin_edge" "bl_needed_edges a0 = k" by (simp_all add: a0_def)
  have fit0: "unat (bl_begin_edge a0) + unat (bl_needed_edges a0) \<le> unat (kr_total_edges r)"
    using fit by (simp add: a0)
  from pass_ok [OF ok fit0] obtain a1 r1 a' r' where
    p: "rewind w (a0, r) = Inr (a1, r1)"
       "next_edges w (unat k) (a1, r1)
          = Inr (map (edge_at w r) [unat begin_edge ..< unat begin_edge + unat k], (a', r'))"
       "reader_ok w r'" "kr_params r' = kr_params r"
       "bl_loaded_edges a' = bl_needed_edges a'"
       "begin_edge < kr_total_edges r \<longrightarrow> kr_pos r' = unat begin_edge + unat k"
    unfolding a0 by blast
  have ctor: "bin_loader_ctor w r k begin_edge = Inr (a1, r1)"
    using p(1) by (simp add: bin_loader_ctor_def a0_def)
  from ok have us: "uniform_store w r" by (simp add: reader_ok_def)
  have defined: "None \<notin> set (map (edge_at w r) [unat begin_edge ..< unat begin_edge + unat k])"
    by (rule edges_defined [OF us fit])
  have more: "\<exists>e r''. next_rec w r' = Inr (Some e, r'')"
    if "unat begin_edge + unat k < unat (kr_total_edges r)"
  proof -
    from that have "begin_edge < kr_total_edges r" by (simp add: word_less_nat_alt)
    with p(6) have pos: "kr_pos r' = unat begin_edge + unat k" by simp
    from p(4) have "kr_total_edges r' = kr_total_edges r" by (simp add: kr_params_def)
    with that pos have "kr_pos r' < unat (kr_total_edges r')" by simp
    from next_rec_ok [OF p(3) this] show ?thesis by fastforce
  qed
  show ?thesis
    using ctor p(2) defined next_edge_exhausted [OF p(5)] more
    by (intro exI [of _ a1] exI [of _ r1] exI [of _ a'] exI [of _ r']) blast
qed


theorem C2_adapter_stops_at_needed_witness:
  "\<exists>a r1 a' r'.
     bin_loader_ctor demo_world demo_reader 2 4 = Inr (a, r1)
     \<and> next_edges demo_world 2 (a, r1)
         = Inr ([Some \<lparr>o_tail = 19, o_head = 18\<rparr>, Some \<lparr>o_tail = 21, o_head = 20\<rparr>], (a', r'))
     \<and> next_edge demo_world (a', r') = Inr (None, (a', r'))
     \<and> (\<exists>e r''. next_rec demo_world r' = Inr (Some e, r''))"
proof -
  have fit: "unat (4 :: 64 word) + unat (2 :: 64 word) \<le> unat (kr_total_edges demo_reader)"
    by (simp add: demo_reader_def)
  have more: "unat (4 :: 64 word) + unat (2 :: 64 word) < unat (kr_total_edges demo_reader)"
    by (simp add: demo_reader_def)
  have ev: "map (edge_at demo_world demo_reader) [unat (4 :: 64 word) ..< unat (4 :: 64 word) + unat (2 :: 64 word)]
            = [Some \<lparr>o_tail = 19, o_head = 18\<rparr>, Some \<lparr>o_tail = 21, o_head = 20\<rparr>]"
    by (simp add: edge_at_def disk_record_def demo_world_def kron_world_def demo_reader_def
        demo_dir_def plain_file_def swapped_def upt_rec)
  have u2: "unat (2 :: 64 word) = 2" by simp
  from C2_adapter_stops_at_needed [OF demo_ok fit] obtain a r1 a' r' where
    h: "bin_loader_ctor demo_world demo_reader 2 4 = Inr (a, r1)"
       "next_edges demo_world (unat (2 :: 64 word)) (a, r1)
          = Inr (map (edge_at demo_world demo_reader)
                   [unat (4 :: 64 word) ..< unat (4 :: 64 word) + unat (2 :: 64 word)], (a', r'))"
       "next_edge demo_world (a', r') = Inr (None, (a', r'))"
       "unat (4 :: 64 word) + unat (2 :: 64 word) < unat (kr_total_edges demo_reader)
          \<longrightarrow> (\<exists>e r''. next_rec demo_world r' = Inr (Some e, r''))"
    by blast
  from h(2) [unfolded ev] have run: "next_edges demo_world 2 (a, r1)
      = Inr ([Some \<lparr>o_tail = 19, o_head = 18\<rparr>, Some \<lparr>o_tail = 21, o_head = 20\<rparr>], (a', r'))"
    by (simp only: u2)
  from h(4) more have "\<exists>e r''. next_rec demo_world r' = Inr (Some e, r'')" by blast
  with h(1,3) run show ?thesis by blast
qed

lemma replays_ok:
  assumes "reader_ok w r"
    and "unat (bl_begin_edge a) + unat (bl_needed_edges a) \<le> unat (kr_total_edges r)"
  shows "\<exists>ar'. replays w n (a, r)
               = Inr (replicate n
                        (map (edge_at w r)
                           [unat (bl_begin_edge a)
                            ..< unat (bl_begin_edge a) + unat (bl_needed_edges a)]),
                      ar')"
  using assms
proof (induction n arbitrary: a r)
  case 0
  then show ?case by simp
next
  case (Suc n)
  from pass_ok [OF Suc.prems] obtain a1 r1 a' r' where
    p: "rewind w (a, r) = Inr (a1, r1)" "bl_needed_edges a1 = bl_needed_edges a"
       "next_edges w (unat (bl_needed_edges a)) (a1, r1)
          = Inr (map (edge_at w r)
                   [unat (bl_begin_edge a) ..< unat (bl_begin_edge a) + unat (bl_needed_edges a)],
                 (a', r'))"
       "reader_ok w r'" "kr_params r' = kr_params r"
       "bl_begin_edge a' = bl_begin_edge a" "bl_needed_edges a' = bl_needed_edges a"
    by blast
  from p(5) have te: "kr_total_edges r' = kr_total_edges r" by (simp add: kr_params_def)
  have fit': "unat (bl_begin_edge a') + unat (bl_needed_edges a') \<le> unat (kr_total_edges r')"
    using Suc.prems(2) by (simp add: p(6,7) te)
  from Suc.IH [OF p(4) fit'] obtain ar' where
    "replays w n (a', r')
       = Inr (replicate n
                (map (edge_at w r)
                   [unat (bl_begin_edge a) ..< unat (bl_begin_edge a) + unat (bl_needed_edges a)]),
              ar')"
    unfolding p(6,7) edge_at_params [OF p(5)] by blast
  then show ?case
    by (intro exI [of _ ar']) (simp add: p(1,2,3))
qed

subsection \<open>The plain loader: stale buffer slots do not matter, restart\<close>

lemma same_but_stale_fields:
  assumes "same_but_stale l l'"
  shows "pl_loaded_edges l' = pl_loaded_edges l" "pl_cur l' = pl_cur l"
    "pl_count l' = pl_count l" "pl_dir l' = pl_dir l" "pl_iter l' = pl_iter l"
    "pl_file l' = pl_file l"
proof -
  from assms have e: "l' = l\<lparr>pl_buffer := pl_buffer l'\<rparr>" by (simp add: same_but_stale_def)
  show "pl_loaded_edges l' = pl_loaded_edges l" by (subst e) simp
  show "pl_cur l' = pl_cur l" by (subst e) simp
  show "pl_count l' = pl_count l" by (subst e) simp
  show "pl_dir l' = pl_dir l" by (subst e) simp
  show "pl_iter l' = pl_iter l" by (subst e) simp
  show "pl_file l' = pl_file l" by (subst e) simp
qed

lemma same_but_staleI:
  assumes "pl_loaded_edges l' = pl_loaded_edges l" "pl_cur l' = pl_cur l"
    "pl_count l' = pl_count l" "pl_dir l' = pl_dir l" "pl_iter l' = pl_iter l"
    "pl_file l' = pl_file l"
    "\<And>i. i < unat (pl_count l) \<Longrightarrow> pl_buffer l' i = pl_buffer l i"
  shows "same_but_stale l l'"
  using assms by (simp add: same_but_stale_def plain_loader.equality)

lemma chunk_count:
  "unat (of_nat (length (take BUFFER_SIZE xs)) :: 64 word) = length (take BUFFER_SIZE xs)"
proof -
  have "length (take BUFFER_SIZE xs) \<le> BUFFER_SIZE" by simp
  then have "length (take BUFFER_SIZE xs) < 2 ^ LENGTH(64)"
    by (simp add: BUFFER_SIZE_def)
  then show ?thesis by (simp only: unat_of_nat mod_less)
qed

lemma fread_length: "length (fst (fread BUFFER_SIZE s)) = length (take BUFFER_SIZE (fst (fread BUFFER_SIZE s)))"
  by (simp add: fread_def Let_def)

lemma fread_buffer_sim:
  assumes "same_but_stale l l'"
  shows "rel_sum (=) same_but_stale (fread_buffer l) (fread_buffer l')"
proof (cases "pl_file l")
  case None
  with same_but_stale_fields(6) [OF assms] show ?thesis by (simp add: fread_buffer_def)
next
  case (Some s)
  note f' = same_but_stale_fields(6) [OF assms, unfolded Some]
  show ?thesis
  proof (cases "s_closed s")
    case True
    with Some f' show ?thesis by (simp add: fread_buffer_def)
  next
    case False
    obtain chunk s' where fr: "fread BUFFER_SIZE s = (chunk, s')" by (cases "fread BUFFER_SIZE s")
    have "length chunk = length (take BUFFER_SIZE chunk)"
      using fread_length [of s] by (simp add: fr)
    then have "unat (of_nat (length chunk) :: 64 word) = length chunk"
      using chunk_count [of chunk] by simp
    then show ?thesis
      using Some f' False fr same_but_stale_fields [OF assms]
      by (auto simp: fread_buffer_def store_def intro!: same_but_staleI)
  qed
qed

lemma same_but_stale_file:
  assumes "same_but_stale l l'"
  shows "same_but_stale (l\<lparr>pl_file := f, pl_iter := it\<rparr>) (l'\<lparr>pl_file := f, pl_iter := it\<rparr>)"
  using same_but_stale_fields [OF assms] assms
  by (intro same_but_staleI) (simp_all add: same_but_stale_def)

lemma same_but_stale_iter:
  assumes "same_but_stale l l'"
  shows "same_but_stale (l\<lparr>pl_iter := it, pl_file := f\<rparr>) (l'\<lparr>pl_iter := it, pl_file := f\<rparr>)"
  using same_but_stale_fields [OF assms] assms
  by (intro same_but_staleI) (simp_all add: same_but_stale_def)

lemma next_file_sim:
  assumes "same_but_stale l l'"
  shows "rel_sum (=) (rel_prod (=) same_but_stale) (next_file l) (next_file l')"
proof (cases "pl_file l")
  case None
  with same_but_stale_fields(6) [OF assms] show ?thesis by (simp add: next_file_def)
next
  case (Some s)
  note f' = same_but_stale_fields(6) [OF assms, unfolded Some]
  note it' = same_but_stale_fields(5) [OF assms]
  show ?thesis
  proof (cases "s_closed s")
    case True
    with Some f' show ?thesis by (simp add: next_file_def)
  next
    case False
    show ?thesis
    proof (cases "tl (pl_iter l)")
      case Nil
      with Some f' it' False same_but_stale_file [OF assms, where f = "Some (fclose s)" and it = "[]"]
      show ?thesis by (simp add: next_file_def)
    next
      case (Cons d ds)
      show ?thesis
      proof (cases "fopen (Some d)")
        case None
        with Some f' it' False Cons show ?thesis by (simp add: next_file_def open_file_def)
      next
        case (Some s2)
        have "same_but_stale (l\<lparr>pl_iter := d # ds, pl_file := Some s2\<rparr>)
                (l'\<lparr>pl_iter := d # ds, pl_file := Some s2\<rparr>)"
          by (rule same_but_stale_iter [OF assms])
        with Some \<open>pl_file l = Some s\<close> f' it' False Cons show ?thesis
          by (simp add: next_file_def open_file_def)
      qed
    qed
  qed
qed

lemma rel_sum_cases:
  assumes "rel_sum (=) R x y"
  obtains e where "x = Inl e" "y = Inl e" | a b where "x = Inr a" "y = Inr b" "R a b"
  using assms by (cases x; cases y) auto

lemma read_buffer_body_sim:
  assumes "same_but_stale l l'"
  shows "rel_sum (=) (rel_prod (=) same_but_stale) (read_buffer_body l) (read_buffer_body l')"
proof -
  from fread_buffer_sim [OF assms] show ?thesis
  proof (cases rule: rel_sum_cases)
    case (1 e)
    then show ?thesis by (simp add: read_buffer_body_def)
  next
    case (2 l1 l1')
    note f1 = same_but_stale_fields(6) [OF 2(3)]
    show ?thesis
    proof (cases "pl_file l1")
      case None
      with 2 f1 show ?thesis by (simp add: read_buffer_body_def)
    next
      case (Some s1)
      show ?thesis
      proof (cases "s_err s1")
        case True
        with 2 f1 Some show ?thesis by (simp add: read_buffer_body_def)
      next
        case False
        have nf: "rel_sum (=) (rel_prod (=) same_but_stale)
                    (if s_eof s1 then next_file l1 else Inr (True, l1))
                    (if s_eof s1 then next_file l1' else Inr (True, l1'))"
          using next_file_sim [OF 2(3)] 2(3) by simp
        from nf show ?thesis
        proof (cases rule: rel_sum_cases)
          case (1 e)
          with 2 f1 Some False show ?thesis by (simp add: read_buffer_body_def)
        next
          case (2 p p')
          obtain ok l2 where p: "p = (ok, l2)" by (cases p)
          obtain ok' l2' where p': "p' = (ok', l2')" by (cases p')
          from 2(3) p p' have ok: "ok' = ok" and r2: "same_but_stale l2 l2'" by simp_all
          show ?thesis
          proof (cases ok)
            case False
            with \<open>fread_buffer l = Inr l1\<close> \<open>fread_buffer l' = Inr l1'\<close> f1 Some
              \<open>\<not> s_err s1\<close> 2(1,2) p p' ok r2
            show ?thesis by (simp add: read_buffer_body_def)
          next
            case True
            from fread_buffer_sim [OF r2] show ?thesis
            proof (cases rule: rel_sum_cases)
              case (1 e)
              with \<open>fread_buffer l = Inr l1\<close> \<open>fread_buffer l' = Inr l1'\<close> f1 Some
                \<open>\<not> s_err s1\<close> 2(1,2) p p' ok True
              show ?thesis by (simp add: read_buffer_body_def)
            next
              case (2 l3 l3')
              note c3 = same_but_stale_fields(3) [OF 2(3)]
              have "same_but_stale (l3\<lparr>pl_cur := 0\<rparr>) (l3'\<lparr>pl_cur := 0\<rparr>)"
                using 2(3) same_but_stale_fields [OF 2(3)]
                by (intro same_but_staleI) (simp_all add: same_but_stale_def)
              with \<open>fread_buffer l = Inr l1\<close> \<open>fread_buffer l' = Inr l1'\<close> f1 Some
                \<open>\<not> s_err s1\<close> \<open>(if s_eof s1 then next_file l1 else Inr (True, l1)) = Inr p\<close>
                \<open>(if s_eof s1 then next_file l1' else Inr (True, l1')) = Inr p'\<close>
                p p' ok True 2 c3
              show ?thesis by (simp add: read_buffer_body_def)
            qed
          qed
        qed
      qed
    qed
  qed
qed

lemma read_buffer_sim:
  "same_but_stale l l' \<Longrightarrow>
   rel_sum (=) (rel_prod (=) same_but_stale) (read_buffer l) (read_buffer l')"
proof (induction l arbitrary: l' rule: read_buffer.induct)
  case (1 l)
  from read_buffer_body_sim [OF "1.prems"] show ?case
  proof (cases rule: rel_sum_cases)
    case (1 e)
    then show ?thesis by (subst (1 2) read_buffer.simps) simp
  next
    case (2 p p')
    obtain b m where p: "p = (b, m)" by (cases p)
    obtain b' m' where p': "p' = (b', m')" by (cases p')
    from 2(3) p p' have b: "b' = b" and r: "same_but_stale m m'" by simp_all
    show ?thesis
    proof (cases b)
      case None
      from "1.IH" [OF 2(1) [unfolded p] _ None r] have
        "rel_sum (=) (rel_prod (=) same_but_stale) (read_buffer m) (read_buffer m')" by simp
      with 2(1,2) p p' b None show ?thesis by (subst (1 2) read_buffer.simps) simp
    next
      case (Some c)
      with 2(1,2) p p' b r show ?thesis by (subst (1 2) read_buffer.simps) simp
    qed
  qed
qed

lemma fread_buffer_post:
  assumes "fread_buffer l = Inr m"
  shows "unat (pl_count m) \<le> BUFFER_SIZE \<and> (\<exists>s. pl_file m = Some s \<and> \<not> s_closed s)
         \<and> pl_dir m = pl_dir l \<and> pl_cur m = pl_cur l"
proof -
  from assms obtain s where s: "pl_file l = Some s" "\<not> s_closed s"
    by (auto simp: fread_buffer_def split: option.splits if_splits)
  obtain chunk s' where fr: "fread BUFFER_SIZE s = (chunk, s')" by (cases "fread BUFFER_SIZE s")
  have cl: "s_closed s' = s_closed s"
    using fr by (auto simp: fread_def Let_def split: if_splits)
  have "length chunk = length (take BUFFER_SIZE chunk)"
    using fread_length [of s] by (simp add: fr)
  then have u: "unat (of_nat (length chunk) :: 64 word) = length chunk"
    and le: "length chunk \<le> BUFFER_SIZE"
    using chunk_count [of chunk] by (simp_all add: min_def split: if_splits)
  from assms s fr have m: "m = l\<lparr>pl_buffer := store (pl_buffer l) chunk,
                                  pl_count := of_nat (length chunk), pl_file := Some s'\<rparr>"
    by (simp add: fread_buffer_def)
  show ?thesis using s(2) cl u le by (simp add: m)
qed

lemma read_buffer_body_true:
  assumes "read_buffer_body l = Inr (Some True, m)"
  shows "pl_cur m = 0 \<and> pl_count m \<noteq> 0 \<and> unat (pl_count m) \<le> BUFFER_SIZE
         \<and> (\<exists>s. pl_file m = Some s \<and> \<not> s_closed s)"
proof -
  from assms obtain l2 l3 where
    f: "fread_buffer l2 = Inr l3" and c: "pl_count l3 \<noteq> 0" and m: "m = l3\<lparr>pl_cur := 0\<rparr>"
    by (auto simp: read_buffer_body_def split: sum.splits option.splits if_splits prod.splits)
  from fread_buffer_post [OF f] c show ?thesis by (simp add: m)
qed

lemma read_buffer_true:
  "read_buffer l = Inr (True, m) \<Longrightarrow>
   pl_cur m = 0 \<and> pl_count m \<noteq> 0 \<and> unat (pl_count m) \<le> BUFFER_SIZE
   \<and> (\<exists>s. pl_file m = Some s \<and> \<not> s_closed s)"
proof (induction l rule: read_buffer.induct)
  case (1 l)
  show ?case
  proof (cases "read_buffer_body l")
    case (Inl e)
    with "1.prems" show ?thesis by (subst (asm) read_buffer.simps) simp
  next
    case (Inr p)
    obtain b l' where p: "p = (b, l')" by (cases p)
    show ?thesis
    proof (cases b)
      case None
      from "1.prems" Inr p None have "read_buffer l' = Inr (True, m)"
        by (subst (asm) read_buffer.simps) simp
      from "1.IH" [OF Inr [unfolded p] _ None this] show ?thesis by simp
    next
      case (Some c)
      from "1.prems" Inr p Some have "c = True" "l' = m"
        by (subst (asm) read_buffer.simps, simp)+
      with Inr p Some have "read_buffer_body l = Inr (Some True, m)" by simp
      then show ?thesis by (rule read_buffer_body_true)
    qed
  qed
qed

lemma plain_next_edge_sim:
  assumes r: "same_but_stale l l'" and c: "pl_cur l \<le> pl_count l"
  shows "rel_sum (=) (rel_prod (=) same_but_stale) (plain_next_edge l) (plain_next_edge l')"
proof -
  note f = same_but_stale_fields [OF r]
  have step: "rel_sum (=) (rel_prod (=) same_but_stale)
       (if BUFFER_SIZE \<le> unat (pl_cur m) then Inl Undefined_behaviour
        else Inr (Some \<lparr>o_tail = snd (pl_buffer m (unat (pl_cur m))),
                        o_head = fst (pl_buffer m (unat (pl_cur m)))\<rparr>,
                  m\<lparr>pl_cur := pl_cur m + 1, pl_loaded_edges := pl_loaded_edges m + 1\<rparr>))
       (if BUFFER_SIZE \<le> unat (pl_cur m') then Inl Undefined_behaviour
        else Inr (Some \<lparr>o_tail = snd (pl_buffer m' (unat (pl_cur m'))),
                        o_head = fst (pl_buffer m' (unat (pl_cur m')))\<rparr>,
                  m'\<lparr>pl_cur := pl_cur m' + 1, pl_loaded_edges := pl_loaded_edges m' + 1\<rparr>))"
    if rm: "same_but_stale m m'" and cm: "pl_cur m < pl_count m" for m m'
  proof -
    note fm = same_but_stale_fields [OF rm]
    from cm have "unat (pl_cur m) < unat (pl_count m)" by (simp add: word_less_nat_alt)
    with rm have b: "pl_buffer m' (unat (pl_cur m)) = pl_buffer m (unat (pl_cur m))"
      by (simp add: same_but_stale_def)
    have "same_but_stale (m\<lparr>pl_cur := pl_cur m + 1, pl_loaded_edges := pl_loaded_edges m + 1\<rparr>)
            (m'\<lparr>pl_cur := pl_cur m + 1, pl_loaded_edges := pl_loaded_edges m + 1\<rparr>)"
      using rm fm by (intro same_but_staleI) (simp_all add: same_but_stale_def)
    then show ?thesis by (simp add: fm b)
  qed
  show ?thesis
  proof (cases "pl_cur l = pl_count l")
    case False
    with c have "pl_cur l < pl_count l" by simp
    from step [OF r this] False show ?thesis by (simp add: plain_next_edge_def f)
  next
    case True
    from read_buffer_sim [OF r] show ?thesis
    proof (cases rule: rel_sum_cases)
      case (1 e)
      with True show ?thesis by (simp add: plain_next_edge_def f)
    next
      case (2 p p')
      obtain ok m where p: "p = (ok, m)" by (cases p)
      obtain ok' m' where p': "p' = (ok', m')" by (cases p')
      from 2(3) p p' have ok: "ok' = ok" and rm: "same_but_stale m m'" by simp_all
      show ?thesis
      proof (cases ok)
        case False
        with 2(1,2) p p' ok rm True show ?thesis by (simp add: plain_next_edge_def f)
      next
        case ok_true: True
        from 2(1) p ok_true have "read_buffer l = Inr (True, m)" by simp
        from read_buffer_true [OF this] have "pl_cur m < pl_count m"
          by (simp add: word_neq_0_conv)
        from step [OF rm this] 2(1,2) p p' ok ok_true True
        show ?thesis by (simp add: plain_next_edge_def f)
      qed
    qed
  qed
qed

lemma next_file_dir: "next_file l = Inr (b, m) \<Longrightarrow> pl_dir m = pl_dir l"
  by (auto simp: next_file_def open_file_def split: option.splits if_splits list.splits sum.splits)

lemma read_buffer_body_dir: "read_buffer_body l = Inr (b, m) \<Longrightarrow> pl_dir m = pl_dir l"
proof -
  assume a: "read_buffer_body l = Inr (b, m)"
  from a obtain l1 where f1: "fread_buffer l = Inr l1"
    by (auto simp: read_buffer_body_def split: sum.splits)
  from fread_buffer_post [OF f1] have d1: "pl_dir l1 = pl_dir l" by simp
  from a f1 obtain ok l2 s1 where
    s1: "pl_file l1 = Some s1"
    and nf: "(if s_eof s1 then next_file l1 else Inr (True, l1)) = Inr (ok, l2)"
    and rest: "(if \<not> ok then Inr (Some False, l2)
                else (case fread_buffer l2 of
                        Inl e \<Rightarrow> Inl e
                      | Inr l3 \<Rightarrow> if pl_count l3 = 0 then Inr (None, l3)
                                  else Inr (Some True, l3\<lparr>pl_cur := 0\<rparr>))) = Inr (b, m)"
    by (auto simp: read_buffer_body_def split: sum.splits option.splits if_splits prod.splits)
  from nf have d2: "pl_dir l2 = pl_dir l1"
    by (auto split: if_splits dest: next_file_dir)
  from rest have "pl_dir m = pl_dir l2"
    by (auto split: if_splits sum.splits dest: fread_buffer_post)
  with d1 d2 show ?thesis by simp
qed

lemma read_buffer_dir: "read_buffer l = Inr (b, m) \<Longrightarrow> pl_dir m = pl_dir l"
proof (induction l rule: read_buffer.induct)
  case (1 l)
  show ?case
  proof (cases "read_buffer_body l")
    case (Inl e)
    with "1.prems" show ?thesis by (subst (asm) read_buffer.simps) simp
  next
    case (Inr p)
    obtain c l' where p: "p = (c, l')" by (cases p)
    from read_buffer_body_dir [OF Inr [unfolded p]] have d: "pl_dir l' = pl_dir l" .
    show ?thesis
    proof (cases c)
      case None
      from "1.prems" Inr p None have "read_buffer l' = Inr (b, m)"
        by (subst (asm) read_buffer.simps) simp
      from "1.IH" [OF Inr [unfolded p] _ None this] d show ?thesis by simp
    next
      case (Some c')
      from "1.prems" Inr p Some have "l' = m"
        by (subst (asm) read_buffer.simps) simp
      with d show ?thesis by simp
    qed
  qed
qed

lemma plain_next_edge_live:
  assumes live: "plain_live l" and step: "plain_next_edge l = Inr (Some e, m)"
  shows "plain_live m \<and> pl_dir m = pl_dir l"
proof (cases "pl_cur l = pl_count l")
  case False
  with live have c: "pl_cur l < pl_count l" by (auto simp: plain_live_def)
  from step False have m: "m = l\<lparr>pl_cur := pl_cur l + 1, pl_loaded_edges := pl_loaded_edges l + 1\<rparr>"
    by (auto simp: plain_next_edge_def split: if_splits)
  from live unat_Suc_less(2) [OF c] show ?thesis by (simp add: m plain_live_def)
next
  case True
  with step obtain l1 where rb: "read_buffer l = Inr (True, l1)"
    and m: "m = l1\<lparr>pl_cur := pl_cur l1 + 1, pl_loaded_edges := pl_loaded_edges l1 + 1\<rparr>"
    by (auto simp: plain_next_edge_def split: sum.splits prod.splits if_splits)
  from read_buffer_true [OF rb] have p: "pl_cur l1 = 0" "pl_count l1 \<noteq> 0"
    "unat (pl_count l1) \<le> BUFFER_SIZE" "\<exists>s. pl_file l1 = Some s \<and> \<not> s_closed s"
    by simp_all
  from p(1,2) have "pl_cur l1 < pl_count l1" by (simp add: word_neq_0_conv)
  from unat_Suc_less(2) [OF this] p(3,4) read_buffer_dir [OF rb] show ?thesis
    by (auto simp: m plain_live_def)
qed

lemma plain_next_edges_sim:
  assumes "same_but_stale l l'" "plain_live l"
    and "plain_next_edges k l = Inr (xs, m)" "None \<notin> set xs"
  shows "\<exists>m'. plain_next_edges k l' = Inr (xs, m') \<and> plain_live m \<and> pl_dir m = pl_dir l"
  using assms
proof (induction k arbitrary: l l' xs)
  case 0
  then show ?case by simp
next
  case (Suc k)
  from Suc.prems(3) obtain x l1 ys where
    s: "plain_next_edge l = Inr (x, l1)" "plain_next_edges k l1 = Inr (ys, m)" "xs = x # ys"
    by (auto split: sum.splits prod.splits)
  from Suc.prems(4) s(3) obtain e where x: "x = Some e" and ys: "None \<notin> set ys"
    by (cases x) auto
  from Suc.prems(2) have c: "pl_cur l \<le> pl_count l" by (simp add: plain_live_def)
  from plain_next_edge_sim [OF Suc.prems(1) c] s(1) obtain l1' where
    s': "plain_next_edge l' = Inr (x, l1')" "same_but_stale l1 l1'"
    by (cases rule: rel_sum_cases) (auto simp: rel_prod_sel)
  from plain_next_edge_live [OF Suc.prems(2) s(1) [unfolded x]]
  have live1: "plain_live l1" and d1: "pl_dir l1 = pl_dir l" by simp_all
  from Suc.IH [OF s'(2) live1 s(2) ys] obtain m' where
    "plain_next_edges k l1' = Inr (ys, m')" "plain_live m" "pl_dir m = pl_dir l1"
    by blast
  with s' s(3) d1 show ?case by (intro exI [of _ m']) simp
qed

lemma plain_rewind_live:
  assumes live: "plain_live l" and ctor: "plain_ctor pw (pl_dir l) = Inr l0"
  shows "\<exists>l2. plain_rewind pw l = Inr l2 \<and> same_but_stale l0 l2 \<and> plain_live l0"
proof -
  from live obtain s where s: "pl_file l = Some s" "\<not> s_closed s"
    by (auto simp: plain_live_def split: option.splits)
  from ctor obtain d ds s0 where
    ls: "pw (pl_dir l) = Some (d # ds)" and op: "fopen (Some d) = Some s0"
    by (auto simp: plain_ctor_def plain_rewind_def open_file_def
             split: option.splits list.splits sum.splits)
  from op have cl: "\<not> s_closed s0" by (auto simp: fopen_def split: if_splits)
  from ctor ls op have l0: "l0 = \<lparr>pl_loaded_edges = 0, pl_buffer = (\<lambda>_. (0, 0)), pl_cur = 0,
      pl_count = 0, pl_dir = pl_dir l, pl_iter = d # ds, pl_file = Some s0\<rparr>"
    by (simp add: plain_ctor_def plain_rewind_def open_file_def)
  have rw: "plain_rewind pw l = Inr (l\<lparr>pl_loaded_edges := 0, pl_cur := 0, pl_count := 0,
      pl_iter := d # ds, pl_file := Some s0\<rparr>)"
    using s ls op by (simp add: plain_rewind_def open_file_def)
  have "same_but_stale l0 (l\<lparr>pl_loaded_edges := 0, pl_cur := 0, pl_count := 0,
      pl_iter := d # ds, pl_file := Some s0\<rparr>)"
    by (intro same_but_staleI) (simp_all add: l0)
  moreover have "plain_live l0" using cl by (simp add: l0 plain_live_def)
  ultimately show ?thesis using rw by blast
qed

lemma plain_ctor_dir: "plain_ctor pw dir = Inr l0 \<Longrightarrow> pl_dir l0 = dir \<and> plain_live l0"
  by (auto simp: plain_ctor_def plain_rewind_def open_file_def fopen_def plain_live_def
           split: option.splits list.splits sum.splits if_splits)

lemma same_but_stale_refl: "same_but_stale l l"
  by (simp add: same_but_stale_def)

lemma plain_replays_ok:
  assumes ctor: "plain_ctor pw dir = Inr l0"
    and pass: "plain_next_edges k l0 = Inr (xs, l1)" and some: "None \<notin> set xs"
  shows "plain_live l \<Longrightarrow> pl_dir l = dir \<Longrightarrow>
         \<exists>l'. plain_replays pw k n l = Inr (replicate n xs, l')"
proof (induction n arbitrary: l)
  case 0
  then show ?case by simp
next
  case (Suc n)
  from plain_ctor_dir [OF ctor] have d0: "pl_dir l0 = dir" and live0: "plain_live l0" by simp_all
  from plain_rewind_live [OF Suc.prems(1) ctor [folded Suc.prems(2)]] obtain l2 where
    rw: "plain_rewind pw l = Inr l2" "same_but_stale l0 l2"
    by blast
  from plain_next_edges_sim [OF rw(2) live0 pass some] obtain l3 where
    run: "plain_next_edges k l2 = Inr (xs, l3)"
    by blast
  have r22: "same_but_stale l2 l2" by (rule same_but_stale_refl)
  have live2: "plain_live l2"
    using live0 same_but_stale_fields [OF rw(2)] by (simp add: plain_live_def)
  from plain_next_edges_sim [OF r22 live2 run some]
  have live3: "plain_live l3" and d3: "pl_dir l3 = pl_dir l2" by auto
  from same_but_stale_fields(4) [OF rw(2)] d0 d3 have "pl_dir l3 = dir" by simp
  from Suc.IH [OF live3 this] obtain l' where
    "plain_replays pw k n l3 = Inr (replicate n xs, l')" by blast
  with rw(1) run show ?case by (intro exI [of _ l']) simp
qed

lemma plain_rewind_replays:
  assumes ctor: "plain_ctor pw dir = Inr l0"
    and pass: "plain_next_edges k l0 = Inr (xs, l1)" and some: "None \<notin> set xs"
  shows "\<exists>l'. plain_replays pw k n l1 = Inr (replicate n xs, l')"
proof -
  from plain_ctor_dir [OF ctor] have d0: "pl_dir l0 = dir" and live0: "plain_live l0" by simp_all
  from plain_next_edges_sim [OF same_but_stale_refl live0 pass some]
  have "plain_live l1" "pl_dir l1 = dir" using d0 by auto
  from plain_replays_ok [OF ctor pass some this] show ?thesis .
qed

lemma two_files_pass:
  "\<exists>l0 l1. plain_ctor two_files ''d'' = Inr l0
     \<and> plain_next_edges 2 l0
         = Inr ([Some \<lparr>o_tail = 8, o_head = 7\<rparr>, Some \<lparr>o_tail = 10, o_head = 9\<rparr>], l1)"
  by (simp add: plain_ctor_def two_files_def plain_file_def plain_rewind_def open_file_def fopen_def
      plain_next_edge_def read_buffer_body_def fread_buffer_def fread_def
      next_file_def fclose_def store_def BUFFER_SIZE_def Let_def numeral_2_eq_2)


subsection \<open>Restart of both adapters\<close>

lemma kron_rewind_replays:
  assumes ok: "reader_ok w r"
    and fit: "unat begin_edge + unat k \<le> unat (kr_total_edges r)"
  shows "\<exists>ar0 xs ar1.
           bin_loader_ctor w r k begin_edge = Inr ar0
           \<and> next_edges w (unat k) ar0 = Inr (xs, ar1)
           \<and> xs = map (edge_at w r) [unat begin_edge ..< unat begin_edge + unat k]
           \<and> (\<forall>n. \<exists>ar'. replays w n ar1 = Inr (replicate n xs, ar'))
           \<and> (\<forall>j n. j \<le> unat k \<longrightarrow>
                 (\<exists>ys arj ar'. next_edges w j ar0 = Inr (ys, arj)
                                \<and> replays w n arj = Inr (replicate n xs, ar')))"
proof -
  define a0 where
    "a0 = \<lparr>bl_begin_edge = begin_edge, bl_needed_edges = k, bl_loaded_edges = 0\<rparr>"
  define xs where
    "xs = map (edge_at w r) [unat begin_edge ..< unat begin_edge + unat k]"
  have a0: "bl_begin_edge a0 = begin_edge" "bl_needed_edges a0 = k" "bl_loaded_edges a0 = 0"
    by (simp_all add: a0_def)
  have fit0: "unat (bl_begin_edge a0) + unat (bl_needed_edges a0) \<le> unat (kr_total_edges r)"
    using fit by (simp add: a0)
  from rewind_ok [OF ok fit0] obtain r1 where
    r1: "rewind w (a0, r) = Inr (a0, r1)" "reader_ok w r1" "kr_params r1 = kr_params r"
        "begin_edge < kr_total_edges r \<longrightarrow> kr_pos r1 = unat begin_edge"
        "begin_edge < kr_total_edges r \<or> k = 0"
    unfolding a0 by (auto simp: a0_def)
  have ctor: "bin_loader_ctor w r k begin_edge = Inr (a0, r1)"
    using r1(1) by (simp add: bin_loader_ctor_def a0_def)
  from r1(3) have te: "kr_total_edges r1 = kr_total_edges r" by (simp add: kr_params_def)
  have part: "\<exists>ys a' r'. next_edges w j (a0, r1) = Inr (ys, (a', r'))
                \<and> (j = unat k \<longrightarrow> ys = xs)
                \<and> reader_ok w r' \<and> kr_params r' = kr_params r
                \<and> bl_begin_edge a' = begin_edge \<and> bl_needed_edges a' = k"
    if j: "j \<le> unat k" for j
  proof (cases "begin_edge < kr_total_edges r")
    case True
    with r1(4) have pos: "kr_pos r1 = unat begin_edge" by simp
    have b1: "kr_pos r1 + j \<le> unat (kr_total_edges r1)" using fit j by (simp add: pos te)
    have b2: "unat (bl_loaded_edges a0) + j \<le> unat (bl_needed_edges a0)" using j by (simp add: a0)
    from next_edges_ok [OF r1(2) b1 b2] obtain a' r' where
      "next_edges w j (a0, r1) = Inr (map (edge_at w r1) [kr_pos r1 ..< kr_pos r1 + j], (a', r'))"
      "reader_ok w r'" "kr_params r' = kr_params r1"
      "bl_begin_edge a' = bl_begin_edge a0" "bl_needed_edges a' = bl_needed_edges a0"
      by blast
    then show ?thesis
      unfolding edge_at_params [OF r1(3)] pos a0 r1(3)
      by (intro exI [of _ "map (edge_at w r) [unat begin_edge ..< unat begin_edge + j]"]
            exI [of _ a'] exI [of _ r']) (simp add: xs_def)
  next
    case False
    with r1(5) have "k = 0" by simp
    with j have "j = 0" by simp
    with r1(2,3) \<open>k = 0\<close> show ?thesis
      by (intro exI [of _ "[]"] exI [of _ a0] exI [of _ r1]) (simp add: xs_def a0)
  qed
  have replay: "\<exists>ar'. replays w n (a', r') = Inr (replicate n xs, ar')"
    if "reader_ok w r'" "kr_params r' = kr_params r" "bl_begin_edge a' = begin_edge"
       "bl_needed_edges a' = k" for a' r' n
  proof -
    from that(2) have te': "kr_total_edges r' = kr_total_edges r" by (simp add: kr_params_def)
    have "unat (bl_begin_edge a') + unat (bl_needed_edges a') \<le> unat (kr_total_edges r')"
      using fit by (simp add: that te')
    from replays_ok [OF that(1) this, of n] show ?thesis
      unfolding that(3,4) edge_at_params [OF that(2)] xs_def by blast
  qed
  from part [of "unat k"] obtain a1 r2 where
    full: "next_edges w (unat k) (a0, r1) = Inr (xs, (a1, r2))" "reader_ok w r2"
          "kr_params r2 = kr_params r" "bl_begin_edge a1 = begin_edge" "bl_needed_edges a1 = k"
    by auto
  have mid: "\<exists>ys arj ar'. next_edges w j (a0, r1) = Inr (ys, arj)
                          \<and> replays w n arj = Inr (replicate n xs, ar')"
    if "j \<le> unat k" for j n
  proof -
    from part [OF that] obtain ys a' r' where
      s: "next_edges w j (a0, r1) = Inr (ys, (a', r'))" "reader_ok w r'"
         "kr_params r' = kr_params r" "bl_begin_edge a' = begin_edge" "bl_needed_edges a' = k"
      by blast
    from replay [OF s(2-5), of n] s(1) show ?thesis by blast
  qed
  show ?thesis
    using ctor full(1) xs_def replay [OF full(2-5)] mid
    by (intro exI [of _ "(a0, r1)"] exI [of _ xs] exI [of _ "(a1, r2)"]) blast
qed


text \<open>
  Restart where it works. Over a uniform store, for a synthetic-format adapter with
  \<open>begin_edge + needed_edges \<le> total_edges\<close>: the first pass (construction, then
  \<open>needed_edges\<close> calls of \<^verbatim>\<open>next_edge\<close>) yields the edges of the records
  \<open>begin_edge, ..., begin_edge + needed_edges - 1\<close>, and from the state after it, or after any
  shorter run of calls, every one of any number of replays (\<^verbatim>\<open>rewind\<close>, then
  \<open>needed_edges\<close> calls) yields that same sequence. For the plain loader: when the \<open>j\<close>
  calls after construction all succeed, every one of any number of replays (\<^verbatim>\<open>rewind\<close>,
  then \<open>j\<close> calls) yields the same sequence again.
\<close>

lemma rewind_replays_both:
  assumes ok: "reader_ok w r"
    and fit: "unat begin_edge + unat k \<le> unat (kr_total_edges r)"
  shows "(\<exists>ar0 xs ar1.
           bin_loader_ctor w r k begin_edge = Inr ar0
           \<and> next_edges w (unat k) ar0 = Inr (xs, ar1)
           \<and> xs = map (edge_at w r) [unat begin_edge ..< unat begin_edge + unat k]
           \<and> (\<forall>n. \<exists>ar'. replays w n ar1 = Inr (replicate n xs, ar'))
           \<and> (\<forall>j n. j \<le> unat k \<longrightarrow>
                 (\<exists>ys arj ar'. next_edges w j ar0 = Inr (ys, arj)
                                \<and> replays w n arj = Inr (replicate n xs, ar'))))
         \<and> (\<forall>pw dir l0 j ys l1 n.
               plain_ctor pw dir = Inr l0 \<and> plain_next_edges j l0 = Inr (ys, l1)
               \<and> None \<notin> set ys \<longrightarrow>
               (\<exists>l'. plain_replays pw j n l1 = Inr (replicate n ys, l')))"
proof (rule conjI)
  show "\<forall>pw dir l0 j ys l1 n.
               plain_ctor pw dir = Inr l0 \<and> plain_next_edges j l0 = Inr (ys, l1)
               \<and> None \<notin> set ys \<longrightarrow>
               (\<exists>l'. plain_replays pw j n l1 = Inr (replicate n ys, l'))"
    using plain_rewind_replays by blast
next
  show "\<exists>ar0 xs ar1.
           bin_loader_ctor w r k begin_edge = Inr ar0
           \<and> next_edges w (unat k) ar0 = Inr (xs, ar1)
           \<and> xs = map (edge_at w r) [unat begin_edge ..< unat begin_edge + unat k]
           \<and> (\<forall>n. \<exists>ar'. replays w n ar1 = Inr (replicate n xs, ar'))
           \<and> (\<forall>j n. j \<le> unat k \<longrightarrow>
                 (\<exists>ys arj ar'. next_edges w j ar0 = Inr (ys, arj)
                                \<and> replays w n arj = Inr (replicate n xs, ar')))"
    using kron_rewind_replays [OF ok fit] .
qed


lemma rewind_replays_both_example:
  "(\<exists>ar0 ar1 ar'.
      bin_loader_ctor demo_world demo_reader 2 4 = Inr ar0
      \<and> next_edges demo_world 2 ar0
          = Inr ([Some \<lparr>o_tail = 19, o_head = 18\<rparr>, Some \<lparr>o_tail = 21, o_head = 20\<rparr>], ar1)
      \<and> replays demo_world 3 ar1
          = Inr ([[Some \<lparr>o_tail = 19, o_head = 18\<rparr>, Some \<lparr>o_tail = 21, o_head = 20\<rparr>],
                  [Some \<lparr>o_tail = 19, o_head = 18\<rparr>, Some \<lparr>o_tail = 21, o_head = 20\<rparr>],
                  [Some \<lparr>o_tail = 19, o_head = 18\<rparr>, Some \<lparr>o_tail = 21, o_head = 20\<rparr>]], ar'))
   \<and> (\<exists>l0 l1 l'.
         plain_ctor two_files ''d'' = Inr l0
         \<and> plain_next_edges 2 l0
             = Inr ([Some \<lparr>o_tail = 8, o_head = 7\<rparr>, Some \<lparr>o_tail = 10, o_head = 9\<rparr>], l1)
         \<and> plain_replays two_files 2 2 l1
             = Inr ([[Some \<lparr>o_tail = 8, o_head = 7\<rparr>, Some \<lparr>o_tail = 10, o_head = 9\<rparr>],
                     [Some \<lparr>o_tail = 8, o_head = 7\<rparr>, Some \<lparr>o_tail = 10, o_head = 9\<rparr>]], l'))"
proof (rule conjI)
  have fit: "unat (4 :: 64 word) + unat (2 :: 64 word) \<le> unat (kr_total_edges demo_reader)"
    by (simp add: demo_reader_def)
  have u2: "unat (2 :: 64 word) = 2" by simp
  from rewind_replays_both [OF demo_ok fit, THEN conjunct1] obtain ar0 xs ar1 where
    h: "bin_loader_ctor demo_world demo_reader 2 4 = Inr ar0"
       "next_edges demo_world (unat (2 :: 64 word)) ar0 = Inr (xs, ar1)"
       "xs = map (edge_at demo_world demo_reader)
               [unat (4 :: 64 word) ..< unat (4 :: 64 word) + unat (2 :: 64 word)]"
       "\<forall>n. \<exists>ar'. replays demo_world n ar1 = Inr (replicate n xs, ar')"
    by blast
  from h(4) obtain ar' where r3: "replays demo_world 3 ar1 = Inr (replicate 3 xs, ar')" by blast
  have "xs = map (edge_at demo_world demo_reader)
               [unat (4 :: 64 word) ..< unat (4 :: 64 word) + unat (2 :: 64 word)]"
    by (rule h(3))
  also have "\<dots> = [Some \<lparr>o_tail = 19, o_head = 18\<rparr>, Some \<lparr>o_tail = 21, o_head = 20\<rparr>]"
    by (simp add: edge_at_def disk_record_def demo_world_def kron_world_def demo_reader_def
        demo_dir_def plain_file_def swapped_def upt_rec)
  finally have xs: "xs = [Some \<lparr>o_tail = 19, o_head = 18\<rparr>, Some \<lparr>o_tail = 21, o_head = 20\<rparr>]" .
  have rep: "replicate 3 xs = [xs, xs, xs]" by (simp add: numeral_3_eq_3)
  from h(1) h(2) [unfolded u2] r3 [unfolded rep]
  show "\<exists>ar0 ar1 ar'.
      bin_loader_ctor demo_world demo_reader 2 4 = Inr ar0
      \<and> next_edges demo_world 2 ar0
          = Inr ([Some \<lparr>o_tail = 19, o_head = 18\<rparr>, Some \<lparr>o_tail = 21, o_head = 20\<rparr>], ar1)
      \<and> replays demo_world 3 ar1
          = Inr ([[Some \<lparr>o_tail = 19, o_head = 18\<rparr>, Some \<lparr>o_tail = 21, o_head = 20\<rparr>],
                  [Some \<lparr>o_tail = 19, o_head = 18\<rparr>, Some \<lparr>o_tail = 21, o_head = 20\<rparr>],
                  [Some \<lparr>o_tail = 19, o_head = 18\<rparr>, Some \<lparr>o_tail = 21, o_head = 20\<rparr>]], ar')"
    unfolding xs by blast
next
  have fit: "unat (4 :: 64 word) + unat (2 :: 64 word) \<le> unat (kr_total_edges demo_reader)"
    by (simp add: demo_reader_def)
  from two_files_pass obtain l0 l1 where
    p: "plain_ctor two_files ''d'' = Inr l0"
       "plain_next_edges 2 l0
          = Inr ([Some \<lparr>o_tail = 8, o_head = 7\<rparr>, Some \<lparr>o_tail = 10, o_head = 9\<rparr>], l1)"
    by blast
  have some: "None \<notin> set [Some \<lparr>o_tail = 8, o_head = 7\<rparr>, Some \<lparr>o_tail = 10 :: 64 word, o_head = 9 :: 64 word\<rparr>]"
    by simp
  from rewind_replays_both [OF demo_ok fit, THEN conjunct2, rule_format, OF conjI [OF p(1) conjI [OF p(2) some]], of 2]
  obtain l' where "plain_replays two_files 2 2 l1
      = Inr (replicate 2 [Some \<lparr>o_tail = 8, o_head = 7\<rparr>, Some \<lparr>o_tail = 10, o_head = 9\<rparr>], l')"
    by blast
  then have "plain_replays two_files 2 2 l1
      = Inr ([[Some \<lparr>o_tail = 8, o_head = 7\<rparr>, Some \<lparr>o_tail = 10, o_head = 9\<rparr>],
              [Some \<lparr>o_tail = 8, o_head = 7\<rparr>, Some \<lparr>o_tail = 10, o_head = 9\<rparr>]], l')"
    by (simp only: numeral_2_eq_2 replicate.simps)
  with p show "\<exists>l0 l1 l'.
         plain_ctor two_files ''d'' = Inr l0
         \<and> plain_next_edges 2 l0
             = Inr ([Some \<lparr>o_tail = 8, o_head = 7\<rparr>, Some \<lparr>o_tail = 10, o_head = 9\<rparr>], l1)
         \<and> plain_replays two_files 2 2 l1
             = Inr ([[Some \<lparr>o_tail = 8, o_head = 7\<rparr>, Some \<lparr>o_tail = 10, o_head = 9\<rparr>],
                     [Some \<lparr>o_tail = 8, o_head = 7\<rparr>, Some \<lparr>o_tail = 10, o_head = 9\<rparr>]], l')"
    by blast
qed

text \<open>
  C3. Restart of the plain loader after a pass that ran to exhaustion, which is how a
  consumer that cannot ask \<^verbatim>\<open>stat\<close> finds the end. The call of \<^verbatim>\<open>next_edge\<close> that
  returns \<open>false\<close> does so through \<^verbatim>\<open>next_file\<close>, which closes the stream and leaves
  \<^verbatim>\<open>_file\<close> pointing at it; \<^verbatim>\<open>rewind\<close> then sees \<^verbatim>\<open>_file != NULL\<close> and closes the
  stream a second time, so nothing is replayed. On the directory of two files the pass is two
  records and then \<open>false\<close>; on a directory of one file the first call already returns
  \<open>false\<close>; in both the following \<^verbatim>\<open>rewind\<close> is undefined.
\<close>

theorem C3_plain_rewind_after_exhaustion:
  "map_sum id fst
     (case plain_ctor two_files ''d'' of
        Inl e \<Rightarrow> Inl e
      | Inr l \<Rightarrow> plain_next_edges 3 l)
   = Inr [Some \<lparr>o_tail = 8, o_head = 7\<rparr>, Some \<lparr>o_tail = 10, o_head = 9\<rparr>, None]
   \<and> (case plain_ctor two_files ''d'' of
        Inl e \<Rightarrow> Inl e
      | Inr l \<Rightarrow>
          (case plain_next_edges 3 l of
             Inl e \<Rightarrow> Inl e
           | Inr (xs, l') \<Rightarrow> plain_rewind two_files l'))
     = Inl Undefined_behaviour
   \<and> map_sum id fst
     (case plain_ctor one_file ''d'' of
        Inl e \<Rightarrow> Inl e
      | Inr l \<Rightarrow> plain_next_edges 1 l)
     = Inr [None]
   \<and> (case plain_ctor one_file ''d'' of
        Inl e \<Rightarrow> Inl e
      | Inr l \<Rightarrow>
          (case plain_next_edges 1 l of
             Inl e \<Rightarrow> Inl e
           | Inr (xs, l') \<Rightarrow> plain_rewind one_file l'))
     = Inl Undefined_behaviour"
  by (simp add: plain_ctor_def two_files_def one_file_def plain_file_def plain_rewind_def
      open_file_def fopen_def plain_next_edge_def read_buffer_body_def fread_buffer_def fread_def
      next_file_def fclose_def store_def BUFFER_SIZE_def Let_def numeral_3_eq_3)


subsection \<open>Random access agrees with sequential reading\<close>

text \<open>
  C4. Over a uniform store and for \<open>n < total_edges\<close>: \<^verbatim>\<open>seek(n)\<close> succeeds and the \<^verbatim>\<open>next\<close>
  after it returns the same record as the call number \<open>n\<close> (counting from 0) of a run of
  \<^verbatim>\<open>next\<close> calls on a reader positioned at index 0; and \<^verbatim>\<open>seek(n)\<close> returns \<open>false\<close>,
  changing nothing, whenever \<open>n \<ge> total_edges\<close>.
\<close>

theorem C4_seek_then_next:
  assumes ok: "reader_ok w r"
    and ok0: "reader_ok w r0" and same: "kr_params r0 = kr_params r" and start: "kr_pos r0 = 0"
    and lt: "n < kr_total_edges r"
  shows "(\<exists>r1 r2 xs r3.
            seek w n r = Inr (True, r1)
            \<and> next_rec w r1 = Inr (xs ! unat n, r2)
            \<and> next_recs w (Suc (unat n)) r0 = Inr (xs, r3)
            \<and> xs ! unat n = edge_at w r (unat n)
            \<and> edge_at w r (unat n) \<noteq> None)
         \<and> (\<forall>r' m. kr_total_edges r' \<le> m \<longrightarrow> seek w m r' = Inr (False, r'))"
proof -
  from seek_ok [OF ok lt] obtain r1 where
    r1: "seek w n r = Inr (True, r1)" "reader_ok w r1" "kr_pos r1 = unat n"
        "kr_params r1 = kr_params r"
    by blast
  from r1(4) have te1: "kr_total_edges r1 = kr_total_edges r" by (simp add: kr_params_def)
  from lt have N: "unat n < unat (kr_total_edges r)" by (simp add: word_less_nat_alt)
  then have "kr_pos r1 < unat (kr_total_edges r1)" by (simp add: r1(3) te1)
  from next_rec_ok [OF r1(2) this] obtain r2 where
    r2: "next_rec w r1 = Inr (edge_at w r (unat n), r2)" "edge_at w r (unat n) \<noteq> None"
    unfolding edge_at_params [OF r1(4)] r1(3) by blast
  from same have te0: "kr_total_edges r0 = kr_total_edges r" by (simp add: kr_params_def)
  from N have "kr_pos r0 + Suc (unat n) \<le> unat (kr_total_edges r0)" by (simp add: start te0)
  from next_recs_ok [OF ok0 this] obtain r3 where
    r3: "next_recs w (Suc (unat n)) r0 = Inr (map (edge_at w r) [0 ..< Suc (unat n)], r3)"
    unfolding edge_at_params [OF same] start by auto
  have nth: "map (edge_at w r) [0 ..< Suc (unat n)] ! unat n = edge_at w r (unat n)"
  proof -
    have "unat n < length [0 ..< Suc (unat n)]" by simp
    then have "map (edge_at w r) [0 ..< Suc (unat n)] ! unat n
               = edge_at w r ([0 ..< Suc (unat n)] ! unat n)"
      by (rule nth_map)
    also have "[0 ..< Suc (unat n)] ! unat n = unat n"
      using nth_upt [of 0 "unat n" "Suc (unat n)"] by simp
    finally show ?thesis .
  qed
  have first: "\<exists>r1 r2 xs r3.
            seek w n r = Inr (True, r1)
            \<and> next_rec w r1 = Inr (xs ! unat n, r2)
            \<and> next_recs w (Suc (unat n)) r0 = Inr (xs, r3)
            \<and> xs ! unat n = edge_at w r (unat n)
            \<and> edge_at w r (unat n) \<noteq> None"
    using r1(1) r2 r3 nth
    by (intro exI [of _ r1] exI [of _ r2] exI [of _ "map (edge_at w r) [0 ..< Suc (unat n)]"]
          exI [of _ r3]) (simp only: simp_thms)
  have second: "\<forall>r' m. kr_total_edges r' \<le> m \<longrightarrow> seek w m r' = Inr (False, r')"
    by (simp add: seek_def)
  from first second show ?thesis by (rule conjI)
qed

theorem C4_seek_then_next_witness:
  "\<exists>r1 r2 xs r3.
     seek demo_world 5 demo_reader = Inr (True, r1)
     \<and> next_rec demo_world r1 = Inr (Some \<lparr>o_tail = 21, o_head = 20\<rparr>, r2)
     \<and> next_recs demo_world 6 demo_reader = Inr (xs, r3)
     \<and> xs ! 5 = Some \<lparr>o_tail = 21, o_head = 20\<rparr>
     \<and> seek demo_world 8 demo_reader = Inr (False, demo_reader)"
proof -
  have lt: "(5 :: 64 word) < kr_total_edges demo_reader" by (simp add: demo_reader_def)
  have start: "kr_pos demo_reader = 0" by (simp add: kr_pos_def demo_reader_def)
  have u5: "unat (5 :: 64 word) = 5" by simp
  have e5: "edge_at demo_world demo_reader 5 = Some \<lparr>o_tail = 21, o_head = 20\<rparr>"
    by (simp add: edge_at_def disk_record_def demo_world_def kron_world_def demo_reader_def
        demo_dir_def plain_file_def swapped_def)
  note main = C4_seek_then_next [OF demo_ok demo_ok refl start lt, unfolded u5 e5]
  from main obtain r1 r2 xs r3 where
    h: "seek demo_world 5 demo_reader = Inr (True, r1)"
       "next_rec demo_world r1 = Inr (xs ! 5, r2)"
       "next_recs demo_world (Suc 5) demo_reader = Inr (xs, r3)"
       "xs ! 5 = Some \<lparr>o_tail = 21, o_head = 20\<rparr>"
    by blast
  have s6: "Suc 5 = 6" by simp
  from main have "kr_total_edges demo_reader \<le> 8
                  \<longrightarrow> seek demo_world 8 demo_reader = Inr (False, demo_reader)"
    by blast
  then have nf: "seek demo_world 8 demo_reader = Inr (False, demo_reader)"
    by (simp add: demo_reader_def)
  from h(1) h(2) [unfolded h(4)] h(3) [unfolded s6] h(4) nf show ?thesis by blast
qed

subsection \<open>Which integer is the tail\<close>

text \<open>
  C5 (as amended). The edge emitted for an on-disk record has \<open>tail\<close> equal to the record's
  second integer and \<open>head\<close> equal to its first: over a uniform store the \<^verbatim>\<open>next\<close> after
  \<^verbatim>\<open>seek(n)\<close> emits record \<open>n\<close> of the stream that way, and the plain loader emits the
  buffered record at its cursor that way.
\<close>

theorem C5_emitted_edge:
  assumes ok: "reader_ok w r" and lt: "n < kr_total_edges r"
  shows "(\<exists>e r1 r2.
            disk_record w r (unat n) = Some e
            \<and> seek w n r = Inr (True, r1)
            \<and> next_rec w r1 = Inr (Some \<lparr>o_tail = snd e, o_head = fst e\<rparr>, r2))
         \<and> (\<forall>l. pl_cur l \<noteq> pl_count l \<and> unat (pl_cur l) < BUFFER_SIZE \<longrightarrow>
               (\<exists>l'. plain_next_edge l
                       = Inr (Some \<lparr>o_tail = snd (pl_buffer l (unat (pl_cur l))),
                                      o_head = fst (pl_buffer l (unat (pl_cur l)))\<rparr>, l')))"
proof -
  from seek_ok [OF ok lt] obtain r1 where
    r1: "seek w n r = Inr (True, r1)" "reader_ok w r1" "kr_pos r1 = unat n"
        "kr_params r1 = kr_params r"
    by blast
  from r1(4) have te1: "kr_total_edges r1 = kr_total_edges r" by (simp add: kr_params_def)
  from lt have N: "unat n < unat (kr_total_edges r)" by (simp add: word_less_nat_alt)
  then have "kr_pos r1 < unat (kr_total_edges r1)" by (simp add: r1(3) te1)
  from next_rec_ok [OF r1(2) this] obtain r2 where
    r2: "next_rec w r1 = Inr (edge_at w r (unat n), r2)"
    unfolding edge_at_params [OF r1(4)] r1(3) by blast
  from ok have us: "uniform_store w r" by (simp add: reader_ok_def)
  from edge_at_defined [OF us N] obtain e where
    e: "disk_record w r (unat n) = Some e"
       "edge_at w r (unat n) = Some \<lparr>o_tail = snd e, o_head = fst e\<rparr>"
    by blast
  have kron: "\<exists>e r1 r2.
            disk_record w r (unat n) = Some e
            \<and> seek w n r = Inr (True, r1)
            \<and> next_rec w r1 = Inr (Some \<lparr>o_tail = snd e, o_head = fst e\<rparr>, r2)"
    using e(1) r1(1) r2 [unfolded e(2)] by blast
  have plain: "\<forall>l. pl_cur l \<noteq> pl_count l \<and> unat (pl_cur l) < BUFFER_SIZE \<longrightarrow>
               (\<exists>l'. plain_next_edge l
                       = Inr (Some \<lparr>o_tail = snd (pl_buffer l (unat (pl_cur l))),
                                      o_head = fst (pl_buffer l (unat (pl_cur l)))\<rparr>, l'))"
    by (simp add: plain_next_edge_def not_le [symmetric])
  from kron plain show ?thesis by (rule conjI)
qed

theorem C5_emitted_edge_witness:
  "\<exists>r1 r2.
     disk_record demo_world demo_reader 5 = Some (20, 21)
     \<and> seek demo_world 5 demo_reader = Inr (True, r1)
     \<and> next_rec demo_world r1 = Inr (Some \<lparr>o_tail = 21, o_head = 20\<rparr>, r2)"
proof -
  have lt: "(5 :: 64 word) < kr_total_edges demo_reader" by (simp add: demo_reader_def)
  have u5: "unat (5 :: 64 word) = 5" by simp
  have d5: "disk_record demo_world demo_reader 5 = Some (20, 21)"
    by (simp add: disk_record_def demo_world_def kron_world_def demo_reader_def
        demo_dir_def plain_file_def)
  from C5_emitted_edge [OF demo_ok lt, unfolded u5 d5] obtain e r1 r2 where
    h: "Some (20 :: 64 word, 21 :: 64 word) = Some e"
       "seek demo_world 5 demo_reader = Inr (True, r1)"
       "next_rec demo_world r1 = Inr (Some \<lparr>o_tail = snd e, o_head = fst e\<rparr>, r2)"
    by blast
  from h(1) have "e = (20, 21)" by simp
  with h(2,3) d5 show ?thesis by auto
qed

text \<open>
  The claim as first stated (tail = first integer, head = second) fails: record 0 of the
  store is \<open>(10, 11)\<close> and the edge emitted for it has tail 11 and head 10.
\<close>

theorem C5_tail_is_first_counterexample:
  "disk_record demo_world demo_reader 0 = Some (10, 11)
   \<and> map_sum id fst (next_rec demo_world demo_reader) = Inr (Some \<lparr>o_tail = 11, o_head = 10\<rparr>)
   \<and> map_sum id fst (next_rec demo_world demo_reader) \<noteq> Inr (Some \<lparr>o_tail = 10, o_head = 11\<rparr>)"
  by (simp add: disk_record_def next_rec_def seek_def seek_open_def fopen_def fseek_set_def
      fread_def store_def BUFFER_SIZE_def Let_def
      demo_world_def kron_world_def demo_reader_def demo_dir_def plain_file_def)

subsection \<open>Seek inside the buffered window\<close>

text \<open>
  C9 (as amended). For every reader state and every \<open>n < total_edges\<close> with
  \<open>begin \<le> n < begin + len\<close> (the sum in 64-bit arithmetic, as the code computes it),
  \<^verbatim>\<open>seek(n)\<close> succeeds and changes only the cursor, to \<open>n - begin\<close>: the buffer, its first
  index, its length, the open stream with its byte position, and the file index are unchanged.
\<close>

theorem C9_seek_inside_window:
  assumes "n < kr_total_edges r" and "kr_begin r \<le> n" and "n < kr_begin r + kr_len r"
  shows "\<exists>r'. seek w n r = Inr (True, r')
              \<and> r' = r\<lparr>kr_cur := n - kr_begin r\<rparr>
              \<and> kr_buffer r' = kr_buffer r \<and> kr_begin r' = kr_begin r \<and> kr_len r' = kr_len r
              \<and> kr_file r' = kr_file r \<and> kr_cur_file_id r' = kr_cur_file_id r"
  using assms by (simp add: seek_def)

theorem C9_seek_inside_window_witness:
  "seek over_world 3 over_reader = Inr (True, over_reader\<lparr>kr_cur := 3\<rparr>)
   \<and> kr_file (over_reader\<lparr>kr_cur := 3\<rparr>) = kr_file over_reader"
proof -
  have a: "(3 :: 64 word) < kr_total_edges over_reader"
    and b: "kr_begin over_reader \<le> 3"
    and c: "3 < kr_begin over_reader + kr_len over_reader"
    by (simp_all add: over_reader_def over_fresh_def)
  have d: "(3 :: 64 word) - kr_begin over_reader = 3" by (simp add: over_reader_def over_fresh_def)
  from C9_seek_inside_window [OF a b c, of over_world] show ?thesis
    unfolding d by auto
qed

text \<open>
  Without \<open>n < total_edges\<close> the claim fails: when the only file holds ten records and the
  path promises eight, the window after \<^verbatim>\<open>seek(0)\<close> is \<open>[0, 10)\<close>, index 9 lies inside
  it, and \<^verbatim>\<open>seek(9)\<close> returns \<open>false\<close>.
\<close>

theorem C9_window_beyond_total_counterexample:
  "kron_reader_ctor over_world ''Kron2-2'' = Inr over_fresh
   \<and> seek over_world 0 over_fresh = Inr (True, over_reader)
   \<and> kr_begin over_reader \<le> 9
   \<and> 9 < kr_begin over_reader + kr_len over_reader
   \<and> seek over_world 9 over_reader = Inr (False, over_reader)"
  by (simp add: kron_reader_ctor_def seek_def seek_open_def fopen_def fseek_set_def
      fread_def BUFFER_SIZE_def Let_def
      over_world_def kron_world_def over_reader_def over_fresh_def over_dir_def plain_file_def)

subsection \<open>Data sources\<close>

lemma seek_total_edges:
  "seek w n r = Inr (b, r') \<Longrightarrow> kr_total_edges r' = kr_total_edges r"
  by (drule seek_params) (simp add: kr_params_def)

text \<open>
  C10. Whenever \<^verbatim>\<open>create_data_source\<close> returns, its adapter has \<open>begin_edge = 0\<close>,
  \<open>needed_edges = total_edges\<close> and nothing loaded, so its range is \<open>[0, total_edges)\<close>: the
  planning it runs is the one for a null configuration, and it takes no configuration.
\<close>

theorem C10_data_source_covers_stream:
  assumes "create_data_source w fe file = Inr ((a, r), fe')"
  shows "bl_begin_edge a = 0
         \<and> bl_needed_edges a = kr_total_edges r
         \<and> bl_loaded_edges a = 0
         \<and> fe_reader fe' = Some r
         \<and> edge_range (Inr (bl_needed_edges a, bl_begin_edge a)) = {0 ..< unat (kr_total_edges r)}
         \<and> (\<exists>r0. init w fe file None = Inr ((kr_total_edges r, 0), r0))"
proof -
  from assms obtain needed_edge begin_edge r0 where
    i: "init w fe file None = Inr ((needed_edge, begin_edge), r0)"
    and c: "bin_loader_ctor w r0 needed_edge begin_edge = Inr (a, r)"
    and fe: "fe' = \<lparr>fe_reader = Some r, fe_path = file\<rparr>"
    by (auto simp: create_data_source_def split: sum.splits prod.splits)
  from i have p: "needed_edge = kr_total_edges r0" "begin_edge = 0"
    by (auto simp: init_def init_range_def split: sum.splits)
  from c obtain b where
    s: "seek w begin_edge r0 = Inr (b, r)"
    and a: "a = \<lparr>bl_begin_edge = begin_edge, bl_needed_edges = needed_edge, bl_loaded_edges = 0\<rparr>"
    by (auto simp: bin_loader_ctor_def rewind_def split: sum.splits prod.splits)
  from seek_total_edges [OF s] have te: "kr_total_edges r = kr_total_edges r0" .
  from i p te have "init w fe file None = Inr ((kr_total_edges r, 0), r0)" by simp
  then show ?thesis using a p te fe by (auto simp: edge_range_def)
qed

theorem C10_data_source_covers_stream_witness:
  "\<exists>a r fe'.
     create_data_source demo_world fresh ''Kron2-2'' = Inr ((a, r), fe')
     \<and> bl_begin_edge a = 0 \<and> bl_needed_edges a = 8 \<and> kr_total_edges r = 8"
proof -
  have i: "init demo_world fresh ''Kron2-2'' None = Inr ((8, 0), demo_reader)"
    by (simp add: init_def init_reader_def fresh_def demo_ctor init_range_def)
       (simp add: demo_reader_def)
  have lt: "(0 :: 64 word) < kr_total_edges demo_reader" by (simp add: demo_reader_def)
  from seek_ok [OF demo_ok lt] obtain r1 where
    s: "seek demo_world 0 demo_reader = Inr (True, r1)" by blast
  have c: "create_data_source demo_world fresh ''Kron2-2''
           = Inr ((\<lparr>bl_begin_edge = 0, bl_needed_edges = 8, bl_loaded_edges = 0\<rparr>, r1),
                  \<lparr>fe_reader = Some r1, fe_path = ''Kron2-2''\<rparr>)"
    by (simp add: create_data_source_def i bin_loader_ctor_def rewind_def s)
  from C10_data_source_covers_stream [OF c] c show ?thesis by auto
qed

end
